theory Spec2Isabelle
  imports Complex_Main "HOL-Library.Word" "HOL-Library.Signed_Division" "HOL-Library.Monad_Syntax"
begin

unbundle bit_operations_syntax

section \<open>Machine model\<close>

text \<open>
  The allocator of \<^verbatim>\<open>mm.c\<close> is modelled for an LP64 target: \<^verbatim>\<open>size_t\<close>,
  \<^verbatim>\<open>uintptr_t\<close> and pointers are 64-bit words, \<^verbatim>\<open>int\<close> is a 32-bit word read in
  two's complement. Memory is a store of 64-bit words at byte addresses; every access of
  the allocator is to a whole word. An access that is not word-aligned or that lies outside
  the region handed out by the region provider has no defined result: the operation that
  performs it yields \<open>None\<close>, and so does a loop that never ends.
\<close>

type_synonym addr = "64 word"
type_synonym cint = "32 word"

record heap =
  mem :: "addr \<Rightarrow> 64 word"
  mem_start_brk :: addr
  mem_brk :: addr
  mem_max_addr :: addr
  heap_listp :: addr
  free_list_start :: addr
  last_malloced_size :: cint
  repeat_counter :: cint

definition NULL :: addr where
  "NULL = 0"

definition WSIZE :: "64 word" where
  "WSIZE = 8"

definition DSIZE :: "64 word" where
  "DSIZE = 2 * WSIZE"

definition CHUNKSIZE :: "64 word" where
  "CHUNKSIZE = 4096"

definition MAX_of :: "64 word \<Rightarrow> 64 word \<Rightarrow> 64 word" where
  "MAX_of x y = (if x > y then x else y)"

definition PACK :: "64 word \<Rightarrow> 64 word \<Rightarrow> 64 word" where
  "PACK sz alloc = sz OR alloc"

subsection \<open>The region provider\<close>

text \<open>
  Modelled from the spec: \<^verbatim>\<open>mem_sbrk\<close> is only declared in \<^verbatim>\<open>memlib.h\<close>; its body
  is not part of the sources. The spec's region provider grows the region by the requested
  number of bytes and returns the address of the first newly added byte, or a failure
  sentinel. The sentinel is the all-ones pointer that \<^verbatim>\<open>extend_heap\<close> tests for; the
  provider refuses a negative increment and one that passes its limit \<open>mem_max_addr\<close>.
\<close>

definition mem_sbrk :: "64 word \<Rightarrow> heap \<Rightarrow> addr \<times> heap" where
  "mem_sbrk incr s =
     (if sint incr < 0 \<or> uint (mem_max_addr s) < uint (mem_brk s) + uint incr
      then (- 1, s)
      else (mem_brk s, s\<lparr>mem_brk := mem_brk s + incr\<rparr>))"

subsection \<open>Word access\<close>

definition valid_addr :: "heap \<Rightarrow> addr \<Rightarrow> bool" where
  "valid_addr s p \<longleftrightarrow>
     p AND 7 = 0 \<and> uint (mem_start_brk s) \<le> uint p \<and> uint p + 8 \<le> uint (mem_brk s)"

definition GET :: "heap \<Rightarrow> addr \<Rightarrow> 64 word option" where
  "GET s p = (if valid_addr s p then Some (mem s p) else None)"

definition PUT :: "addr \<Rightarrow> 64 word \<Rightarrow> heap \<Rightarrow> heap option" where
  "PUT p v s = (if valid_addr s p then Some (s\<lparr>mem := (mem s)(p := v)\<rparr>) else None)"

definition GET_SIZE :: "heap \<Rightarrow> addr \<Rightarrow> 64 word option" where
  "GET_SIZE s p = map_option (\<lambda>w. w AND NOT (DSIZE - 1)) (GET s p)"

definition GET_ALLOC :: "heap \<Rightarrow> addr \<Rightarrow> 64 word option" where
  "GET_ALLOC s p = map_option (\<lambda>w. w AND 1) (GET s p)"

definition HDRP :: "addr \<Rightarrow> addr" where
  "HDRP bp = bp - WSIZE"

definition FTRP :: "heap \<Rightarrow> addr \<Rightarrow> addr option" where
  "FTRP s bp = map_option (\<lambda>sz. bp + sz - DSIZE) (GET_SIZE s (HDRP bp))"

definition NEXT_BLK :: "heap \<Rightarrow> addr \<Rightarrow> addr option" where
  "NEXT_BLK s bp = map_option (\<lambda>sz. bp + sz) (GET_SIZE s (HDRP bp))"

definition PREV_BLK :: "heap \<Rightarrow> addr \<Rightarrow> addr option" where
  "PREV_BLK s bp = map_option (\<lambda>sz. bp - sz) (GET_SIZE s (bp - DSIZE))"

definition GET_NEXT_PTR :: "heap \<Rightarrow> addr \<Rightarrow> addr option" where
  "GET_NEXT_PTR s bp = GET s (bp + WSIZE)"

definition GET_PREV_PTR :: "heap \<Rightarrow> addr \<Rightarrow> addr option" where
  "GET_PREV_PTR s bp = GET s bp"

definition SET_NEXT_PTR :: "addr \<Rightarrow> addr \<Rightarrow> heap \<Rightarrow> heap option" where
  "SET_NEXT_PTR bp qp s = PUT (bp + WSIZE) qp s"

definition SET_PREV_PTR :: "addr \<Rightarrow> addr \<Rightarrow> heap \<Rightarrow> heap option" where
  "SET_PREV_PTR bp qp s = PUT bp qp s"

section \<open>The free list\<close>

definition insert_in_free_list :: "addr \<Rightarrow> heap \<Rightarrow> heap option" where
  "insert_in_free_list bp s = do {
     s1 \<leftarrow> SET_NEXT_PTR bp (free_list_start s) s;
     s2 \<leftarrow> SET_PREV_PTR (free_list_start s1) bp s1;
     s3 \<leftarrow> SET_PREV_PTR bp NULL s2;
     Some (s3\<lparr>free_list_start := bp\<rparr>)
   }"

definition remove_from_free_list :: "addr \<Rightarrow> heap \<Rightarrow> heap option" where
  "remove_from_free_list bp s = do {
     p \<leftarrow> GET_PREV_PTR s bp;
     s1 \<leftarrow> (if p \<noteq> NULL
            then do { n \<leftarrow> GET_NEXT_PTR s bp; SET_NEXT_PTR p n s }
            else do { n \<leftarrow> GET_NEXT_PTR s bp; Some (s\<lparr>free_list_start := n\<rparr>) });
     n1 \<leftarrow> GET_NEXT_PTR s1 bp;
     p1 \<leftarrow> GET_PREV_PTR s1 bp;
     SET_PREV_PTR n1 p1 s1
   }"

section \<open>Coalescing and heap extension\<close>

definition coalesce :: "addr \<Rightarrow> heap \<Rightarrow> (addr \<times> heap) option" where
  "coalesce bp s = do {
     nb \<leftarrow> NEXT_BLK s bp;
     NEXT_ALLOC \<leftarrow> GET_ALLOC s (HDRP nb);
     pb \<leftarrow> PREV_BLK s bp;
     pf \<leftarrow> FTRP s pb;
     pa \<leftarrow> GET_ALLOC s pf;
     let PREV_ALLOC = (pa \<noteq> 0 \<or> pb = bp);
     sz \<leftarrow> GET_SIZE s (HDRP bp);
     (bp', s') \<leftarrow>
       (if PREV_ALLOC \<and> NEXT_ALLOC = 0 then do {
          nb1 \<leftarrow> NEXT_BLK s bp;
          nsz \<leftarrow> GET_SIZE s (HDRP nb1);
          nb2 \<leftarrow> NEXT_BLK s bp;
          s1 \<leftarrow> remove_from_free_list nb2 s;
          s2 \<leftarrow> PUT (HDRP bp) (PACK (sz + nsz) 0) s1;
          f \<leftarrow> FTRP s2 bp;
          s3 \<leftarrow> PUT f (PACK (sz + nsz) 0) s2;
          Some (bp, s3)
        }
        else if \<not> PREV_ALLOC \<and> NEXT_ALLOC \<noteq> 0 then do {
          pb1 \<leftarrow> PREV_BLK s bp;
          psz \<leftarrow> GET_SIZE s (HDRP pb1);
          bp1 \<leftarrow> PREV_BLK s bp;
          s1 \<leftarrow> remove_from_free_list bp1 s;
          s2 \<leftarrow> PUT (HDRP bp1) (PACK (sz + psz) 0) s1;
          f \<leftarrow> FTRP s2 bp1;
          s3 \<leftarrow> PUT f (PACK (sz + psz) 0) s2;
          Some (bp1, s3)
        }
        else if \<not> PREV_ALLOC \<and> NEXT_ALLOC = 0 then do {
          pb1 \<leftarrow> PREV_BLK s bp;
          psz \<leftarrow> GET_SIZE s (HDRP pb1);
          nb1 \<leftarrow> NEXT_BLK s bp;
          nsz \<leftarrow> GET_SIZE s (HDRP nb1);
          pb2 \<leftarrow> PREV_BLK s bp;
          s1 \<leftarrow> remove_from_free_list pb2 s;
          nb2 \<leftarrow> NEXT_BLK s1 bp;
          s2 \<leftarrow> remove_from_free_list nb2 s1;
          bp1 \<leftarrow> PREV_BLK s2 bp;
          s3 \<leftarrow> PUT (HDRP bp1) (PACK (sz + (psz + nsz)) 0) s2;
          f \<leftarrow> FTRP s3 bp1;
          s4 \<leftarrow> PUT f (PACK (sz + (psz + nsz)) 0) s3;
          Some (bp1, s4)
        }
        else Some (bp, s));
     s'' \<leftarrow> insert_in_free_list bp' s';
     Some (bp', s'')
   }"

definition extend_heap :: "64 word \<Rightarrow> heap \<Rightarrow> (addr \<times> heap) option" where
  "extend_heap words s =
     (let sz0 = (if words mod 2 \<noteq> 0 then (words + 1) * WSIZE else words * WSIZE);
          sz = (if sz0 < 16 then 16 else sz0);
          (bp, s1) = mem_sbrk sz s
      in if (ucast bp :: cint) = - 1 then Some (NULL, s1)
         else do {
           s2 \<leftarrow> PUT (HDRP bp) (PACK sz 0) s1;
           f \<leftarrow> FTRP s2 bp;
           s3 \<leftarrow> PUT f (PACK sz 0) s2;
           nb \<leftarrow> NEXT_BLK s3 bp;
           s4 \<leftarrow> PUT (HDRP nb) (PACK 0 1) s3;
           coalesce bp s4
         })"

section \<open>Searching and placing\<close>

partial_function (option) find_fit_loop :: "64 word \<Rightarrow> addr \<Rightarrow> heap \<Rightarrow> (addr \<times> heap) option" where
  "find_fit_loop asize bp s = do {
     a \<leftarrow> GET_ALLOC s (HDRP bp);
     if a = 0 then do {
       sz \<leftarrow> GET_SIZE s (HDRP bp);
       if asize \<le> sz then Some (bp, s\<lparr>last_malloced_size := ucast asize\<rparr>)
       else do { n \<leftarrow> GET_NEXT_PTR s bp; find_fit_loop asize n s }
     }
     else Some (NULL, s)
   }"

declare find_fit_loop.simps [code]

definition find_fit :: "64 word \<Rightarrow> heap \<Rightarrow> (addr \<times> heap) option" where
  "find_fit asize s =
     (if last_malloced_size s = ucast asize then
        (if 30 < sint (repeat_counter s) then
           (let extendsize = (ucast (MAX_of asize (4 * WSIZE)) :: cint)
            in extend_heap (word_of_int (sint extendsize sdiv 4)) s)
         else find_fit_loop asize (free_list_start s)
                (s\<lparr>repeat_counter := repeat_counter s + 1\<rparr>))
      else find_fit_loop asize (free_list_start s) (s\<lparr>repeat_counter := 0\<rparr>))"

definition place :: "addr \<Rightarrow> 64 word \<Rightarrow> heap \<Rightarrow> heap option" where
  "place bp asize s = do {
     csize \<leftarrow> GET_SIZE s (HDRP bp);
     if csize - asize \<ge> 4 * WSIZE then do {
       s1 \<leftarrow> PUT (HDRP bp) (PACK asize 1) s;
       f \<leftarrow> FTRP s1 bp;
       s2 \<leftarrow> PUT f (PACK asize 1) s1;
       s3 \<leftarrow> remove_from_free_list bp s2;
       nb \<leftarrow> NEXT_BLK s3 bp;
       s4 \<leftarrow> PUT (HDRP nb) (PACK (csize - asize) 0) s3;
       f' \<leftarrow> FTRP s4 nb;
       s5 \<leftarrow> PUT f' (PACK (csize - asize) 0) s4;
       (r, s6) \<leftarrow> coalesce nb s5;
       Some s6
     }
     else do {
       s1 \<leftarrow> PUT (HDRP bp) (PACK csize 1) s;
       f \<leftarrow> FTRP s1 bp;
       s2 \<leftarrow> PUT f (PACK csize 1) s1;
       remove_from_free_list bp s2
     }
   }"

section \<open>The public operations\<close>

definition mm_init :: "heap \<Rightarrow> (cint \<times> heap) option" where
  "mm_init s =
     (let (p, s0) = mem_sbrk (8 * WSIZE) s;
          s1 = s0\<lparr>heap_listp := p\<rparr>
      in if p = NULL then Some (- 1, s1)
         else do {
           s2 \<leftarrow> PUT p 0 s1;
           s3 \<leftarrow> PUT (p + 1 * WSIZE) (PACK DSIZE 1) s2;
           s4 \<leftarrow> PUT (p + 2 * WSIZE) (PACK DSIZE 1) s3;
           s5 \<leftarrow> PUT (p + 3 * WSIZE) (PACK 0 1) s4;
           (r, s6) \<leftarrow> extend_heap 4 (s5\<lparr>free_list_start := p + 2 * WSIZE\<rparr>);
           if r = NULL then Some (- 1, s6) else Some (0, s6)
         })"

definition adjusted_size :: "64 word \<Rightarrow> 64 word" where
  "adjusted_size sz =
     (if sz \<le> DSIZE then 2 * DSIZE else DSIZE * ((sz + DSIZE + (DSIZE - 1)) div DSIZE))"

definition mm_malloc :: "64 word \<Rightarrow> heap \<Rightarrow> (addr \<times> heap) option" where
  "mm_malloc sz s =
     (if sz = 0 then Some (NULL, s)
      else do {
        let asize = adjusted_size sz;
        (bp, s1) \<leftarrow> find_fit asize s;
        if bp \<noteq> NULL then do { s2 \<leftarrow> place bp asize s1; Some (bp, s2) }
        else do {
          let extendsize = MAX_of asize CHUNKSIZE;
          (bp', s2) \<leftarrow> extend_heap (extendsize div WSIZE) s1;
          if bp' = NULL then Some (NULL, s2)
          else do { s3 \<leftarrow> place bp' asize s2; Some (bp', s3) }
        }
      })"

definition mm_free :: "addr \<Rightarrow> heap \<Rightarrow> heap option" where
  "mm_free bp s =
     (if bp = NULL then Some s
      else do {
        sz \<leftarrow> GET_SIZE s (HDRP bp);
        s1 \<leftarrow> PUT (HDRP bp) (PACK sz 0) s;
        f \<leftarrow> FTRP s1 bp;
        s2 \<leftarrow> PUT f (PACK sz 0) s1;
        (r, s3) \<leftarrow> coalesce bp s2;
        Some s3
      })"

text \<open>
  \<^verbatim>\<open>memcpy(dst, src, n)\<close> on the word store of a little-endian machine: whole words are
  copied in ascending order and the last \<open>n mod 8\<close> bytes replace the low-order bytes of
  the destination word.
\<close>

fun memcpy_words :: "nat \<Rightarrow> addr \<Rightarrow> addr \<Rightarrow> heap \<Rightarrow> heap option" where
  "memcpy_words 0 dst src s = Some s"
| "memcpy_words (Suc k) dst src s = do {
     w \<leftarrow> GET s src;
     s1 \<leftarrow> PUT dst w s;
     memcpy_words k (dst + 8) (src + 8) s1
   }"

definition memcpy :: "addr \<Rightarrow> addr \<Rightarrow> 64 word \<Rightarrow> heap \<Rightarrow> heap option" where
  "memcpy dst src n s = do {
     s1 \<leftarrow> memcpy_words (unat (n div 8)) dst src s;
     if n mod 8 = 0 then Some s1
     else do {
       let m = mask (8 * unat (n mod 8));
       let d = dst + 8 * (n div 8);
       let r = src + 8 * (n div 8);
       w \<leftarrow> GET s1 r;
       v \<leftarrow> GET s1 d;
       PUT d ((v AND NOT m) OR (w AND m)) s1
     }
   }"

definition realloc_fallback :: "addr \<Rightarrow> 64 word \<Rightarrow> heap \<Rightarrow> (addr \<times> heap) option" where
  "realloc_fallback bp newsize s = do {
     (new_ptr, s1) \<leftarrow> mm_malloc newsize s;
     s2 \<leftarrow> place new_ptr newsize s1;
     s3 \<leftarrow> memcpy new_ptr bp newsize s2;
     s4 \<leftarrow> mm_free bp s3;
     Some (new_ptr, s4)
   }"

definition mm_realloc :: "addr \<Rightarrow> 64 word \<Rightarrow> heap \<Rightarrow> (addr \<times> heap) option" where
  "mm_realloc bp sz s =
     (if sint (ucast sz :: cint) < 0 then Some (NULL, s)
      else if (ucast sz :: cint) = 0 then do { s1 \<leftarrow> mm_free bp s; Some (NULL, s1) }
      else if sz > 0 then do {
        oldsize \<leftarrow> GET_SIZE s (HDRP bp);
        let newsize = sz + 2 * WSIZE;
        if newsize \<le> oldsize then Some (bp, s)
        else do {
          nb \<leftarrow> NEXT_BLK s bp;
          next_alloc \<leftarrow> GET_ALLOC s (HDRP nb);
          if next_alloc = 0 then do {
            nb1 \<leftarrow> NEXT_BLK s bp;
            nsz \<leftarrow> GET_SIZE s (HDRP nb1);
            let csize = oldsize + nsz;
            if csize \<ge> newsize then do {
              nb2 \<leftarrow> NEXT_BLK s bp;
              s1 \<leftarrow> remove_from_free_list nb2 s;
              s2 \<leftarrow> PUT (HDRP bp) (PACK csize 1) s1;
              f \<leftarrow> FTRP s2 bp;
              s3 \<leftarrow> PUT f (PACK csize 1) s2;
              Some (bp, s3)
            }
            else realloc_fallback bp newsize s
          }
          else realloc_fallback bp newsize s
        }
      }
      else Some (NULL, s))"

section \<open>Observations and scenarios\<close>

text \<open>
  A freshly initialised region provider: 20 MiB of zero-filled memory starting at a
  double-word aligned address, nothing handed out yet.
\<close>

definition fresh_heap :: heap where
  "fresh_heap = \<lparr>mem = (\<lambda>_. 0), mem_start_brk = 0x10000, mem_brk = 0x10000,
     mem_max_addr = 0x1410000, heap_listp = 0, free_list_start = 0,
     last_malloced_size = 0, repeat_counter = 0\<rparr>"

definition heap_after_init :: heap where
  "heap_after_init = snd (the (mm_init fresh_heap))"

text \<open>The addresses of two consecutive allocations, the first of \<open>2^64 - 1\<close> bytes.\<close>

definition overflow_run :: "(addr \<times> addr) option" where
  "overflow_run = do {
     (a, s1) \<leftarrow> mm_malloc 0xFFFFFFFFFFFFFFFF heap_after_init;
     (b, s2) \<leftarrow> mm_malloc 16 s1;
     Some (a, b)
   }"

text \<open>
  The blocks of the heap, by address order: the walk starts at the first block after the
  initial words, follows the sizes found in the headers and stops at the end of the
  region, or at a header of size zero that lies before it.
\<close>

fun blocks_from :: "nat \<Rightarrow> heap \<Rightarrow> addr \<Rightarrow> addr list" where
  "blocks_from 0 s bp = []"
| "blocks_from (Suc n) s bp =
     (if bp = mem_brk s then []
      else case GET_SIZE s (HDRP bp) of
             None \<Rightarrow> [bp]
           | Some sz \<Rightarrow> if sz = 0 then [bp] else bp # blocks_from n s (bp + sz))"

definition heap_blocks :: "heap \<Rightarrow> addr list" where
  "heap_blocks s =
     blocks_from (unat (mem_brk s - heap_listp s) div 16) s (heap_listp s + 8 * WSIZE)"

text \<open>
  The nodes of the free list, as the loop of \<^verbatim>\<open>find_fit\<close> visits them: from
  \<^verbatim>\<open>free_list_start\<close> along the next pointers up to the first allocated header.
\<close>

fun list_from :: "nat \<Rightarrow> heap \<Rightarrow> addr \<Rightarrow> addr list" where
  "list_from 0 s bp = []"
| "list_from (Suc n) s bp =
     (case GET_ALLOC s (HDRP bp) of
        None \<Rightarrow> []
      | Some a \<Rightarrow>
          if a \<noteq> 0 then []
          else bp # (case GET_NEXT_PTR s bp of None \<Rightarrow> [] | Some nx \<Rightarrow> list_from n s nx))"

definition free_list_nodes :: "heap \<Rightarrow> addr list" where
  "free_list_nodes s = list_from (unat (mem_brk s - heap_listp s) div 16) s (free_list_start s)"

definition hdr_ftr_agree :: "heap \<Rightarrow> addr \<Rightarrow> bool" where
  "hdr_ftr_agree s bp \<longleftrightarrow>
     GET_SIZE s (HDRP bp) \<noteq> None \<and>
     Option.bind (FTRP s bp) (GET_SIZE s) = GET_SIZE s (HDRP bp) \<and>
     Option.bind (FTRP s bp) (GET_ALLOC s) = GET_ALLOC s (HDRP bp)"

definition size_at :: "addr \<Rightarrow> heap \<Rightarrow> 64 word option" where
  "size_at bp s = GET_SIZE s (HDRP bp)"

definition alloc_at :: "addr \<Rightarrow> heap \<Rightarrow> 64 word option" where
  "alloc_at bp s = GET_ALLOC s (HDRP bp)"

definition block_sizes :: "heap \<Rightarrow> 64 word option list" where
  "block_sizes s = map (\<lambda>bp. size_at bp s) (heap_blocks s)"

text \<open>
  Four allocations, a word written by the user into the payload of the second block,
  which is then freed, and a reallocation of the third block that has to move it.
\<close>

definition fallback_run :: "heap option" where
  "fallback_run = do {
     (a, s1) \<leftarrow> mm_malloc 1 heap_after_init;
     (x, s2) \<leftarrow> mm_malloc 64 s1;
     (y, s3) \<leftarrow> mm_malloc 1 s2;
     (z, s4) \<leftarrow> mm_malloc 1 s3;
     s5 \<leftarrow> PUT (x + 56) 1 s4;
     s6 \<leftarrow> mm_free x s5;
     (p, s7) \<leftarrow> mm_realloc y 17 s6;
     Some s7
   }"

text \<open>A region provider with 8 GiB, and a heap on it with a free block of more than 2 GiB.\<close>

definition big_heap :: heap where
  "big_heap = fresh_heap\<lparr>mem_max_addr := 0x200010000\<rparr>"

definition big_run :: "heap option" where
  "big_run = do {
     (r, s0) \<leftarrow> mm_init big_heap;
     (a, s1) \<leftarrow> mm_malloc 16 s0;
     (b, s2) \<leftarrow> mm_malloc 0x80000040 s1;
     (c, s3) \<leftarrow> mm_malloc 16 s2;
     mm_free b s3
   }"

text \<open>The same request, \<open>n\<close> times in a row.\<close>

fun repeat_malloc :: "nat \<Rightarrow> 64 word \<Rightarrow> heap \<Rightarrow> heap option" where
  "repeat_malloc 0 sz s = Some s"
| "repeat_malloc (Suc n) sz s = do { (p, s1) \<leftarrow> mm_malloc sz s; repeat_malloc n sz s1 }"

text \<open>The block that \<^verbatim>\<open>find_fit\<close> returns, with the size in its header.\<close>

definition find_fit_size :: "64 word \<Rightarrow> heap \<Rightarrow> (addr \<times> 64 word) option" where
  "find_fit_size asize s = do { (bp, s1) \<leftarrow> find_fit asize s; sz \<leftarrow> size_at bp s1; Some (bp, sz) }"

text \<open>The heap after initialisation and one allocation of 16 bytes, at \<open>0x10040\<close>.\<close>

definition one_block_heap :: heap where
  "one_block_heap = snd (the (mm_malloc 16 heap_after_init))"

text \<open>
  The previous and next pointers of a list of nodes, as \<^verbatim>\<open>GET_PREV_PTR\<close> and
  \<^verbatim>\<open>GET_NEXT_PTR\<close> read them: each node points back to its predecessor (\<open>p\<close> for the first
  one) and on to its successor, the last one to the address of the prologue footer.
\<close>

fun links_ok :: "heap \<Rightarrow> addr \<Rightarrow> addr list \<Rightarrow> bool" where
  "links_ok s p [] = True"
| "links_ok s p (c # cs) =
     (GET_PREV_PTR s c = Some p \<and>
      GET_NEXT_PTR s c = Some (hd (cs @ [heap_listp s + 2 * WSIZE])) \<and>
      links_ok s c cs)"

text \<open>
  Two allocations of 16 bytes after initialisation, at \<open>0x10040\<close> and \<open>0x10060\<close>.
\<close>

definition two_block_heap :: heap where
  "two_block_heap = snd (the (mm_malloc 16 one_block_heap))"

text \<open>
  The same heap after the first of the two blocks has been freed: a free block, an allocated
  block and the free remainder of the extension.
\<close>

definition sample_heap :: heap where
  "sample_heap = the (mm_free 0x10040 two_block_heap)"

text \<open>
  The blocks of the heap whose header is marked allocated.
\<close>

definition allocated_blocks :: "heap \<Rightarrow> addr list" where
  "allocated_blocks s = filter (\<lambda>bp. alloc_at bp s = Some 1) (heap_blocks s)"

text \<open>
  Two allocations of 32 bytes after initialisation, at \<open>0x10040\<close> and \<open>0x10070\<close>, and the
  second one freed: the block at \<open>0x10040\<close> has 48 bytes and a free neighbour of 4080 bytes.
\<close>

definition absorb_heap :: heap where
  "absorb_heap =
     the (mm_free 0x10070 (snd (the (mm_malloc 32 (snd (the (mm_malloc 32 heap_after_init)))))))"

text \<open>
  The state in which \<^verbatim>\<open>mm_init\<close> calls \<^verbatim>\<open>extend_heap(4)\<close> on the fresh region: the statements of
  \<^verbatim>\<open>mm_init\<close> up to that call.
\<close>

definition init_pre :: heap where
  "init_pre =
     (let (p, s0) = mem_sbrk (8 * WSIZE) fresh_heap;
          s1 = s0\<lparr>heap_listp := p\<rparr>
      in the (do {
           s2 \<leftarrow> PUT p 0 s1;
           s3 \<leftarrow> PUT (p + 1 * WSIZE) (PACK DSIZE 1) s2;
           s4 \<leftarrow> PUT (p + 2 * WSIZE) (PACK DSIZE 1) s3;
           s5 \<leftarrow> PUT (p + 3 * WSIZE) (PACK 0 1) s4;
           Some (s5\<lparr>free_list_start := p + 2 * WSIZE\<rparr>)
         }))"

section \<open>The heap as a list of blocks\<close>

text \<open>
  The invariants of the allocator are stated over an abstract view of the heap: the list of
  its blocks in address order, each with the address of its payload, its size and its
  allocation flag, and the list of the free-list nodes in list order. Addresses and sizes
  of this view are natural numbers; \<open>wd\<close> embeds them into machine words.
\<close>

text \<open>
  The machine word of a natural number.
\<close>

definition wd :: "nat \<Rightarrow> 64 word" where
  "wd n = of_nat n"

text \<open>
  The boundary tag of a block: its size with the allocation flag in the lowest bit.
\<close>

definition tagw :: "nat \<Rightarrow> bool \<Rightarrow> 64 word" where
  "tagw z f = PACK (wd z) (if f then 1 else 0)"

text \<open>
  The region handed out so far goes from \<open>b\<close> to \<open>E\<close>, and the heap starts at its first byte.
\<close>

definition region :: "heap \<Rightarrow> nat \<Rightarrow> nat \<Rightarrow> bool" where
  "region s b E \<longleftrightarrow>
     unat (mem_start_brk s) = b \<and> unat (mem_brk s) = E \<and> 16 dvd b \<and> 0 < b \<and>
     heap_listp s = mem_start_brk s"

type_synonym blk = "nat \<times> nat \<times> bool"

text \<open>
  A list of blocks tiles the addresses from \<open>a\<close> to \<open>e\<close>: every block starts where its predecessor
  ends, and every size is a multiple of 16 and at least 32.
\<close>

fun chain :: "nat \<Rightarrow> blk list \<Rightarrow> nat \<Rightarrow> bool" where
  "chain a [] e = (a = e)"
| "chain a ((c, z, f) # bs) e = (c = a \<and> 16 dvd z \<and> 32 \<le> z \<and> chain (a + z) bs e)"

text \<open>
  Header and footer of a block hold its tag.
\<close>

definition tagged :: "(addr \<Rightarrow> 64 word) \<Rightarrow> blk \<Rightarrow> bool" where
  "tagged m blk = (case blk of (c, z, f) \<Rightarrow>
     m (wd (c - 8)) = tagw z f \<and> m (wd (c + z - 16)) = tagw z f)"

text \<open>
  The addresses of the headers and footers of a list of blocks.
\<close>

definition tags_of :: "blk list \<Rightarrow> nat set" where
  "tags_of L = (\<Union>(c, z, f) \<in> set L. {c - 8, c + z - 16})"

text \<open>
  The free list as a doubly linked list in memory: the first word of a node holds the
  address of its predecessor (\<open>p\<close> for the first node), the second word the address of its
  successor (the sentinel \<open>S\<close> for the last node).
\<close>

fun dll :: "(addr \<Rightarrow> 64 word) \<Rightarrow> 64 word \<Rightarrow> nat list \<Rightarrow> nat \<Rightarrow> bool" where
  "dll m p [] S = True"
| "dll m p (c # cs) S =
     (m (wd c) = p \<and> m (wd (c + 8)) = wd (hd (cs @ [S])) \<and> dll m (wd c) cs S)"

text \<open>
  The addresses of the link words of a list of nodes.
\<close>

definition links_of :: "nat list \<Rightarrow> nat set" where
  "links_of cs = (\<Union>c \<in> set cs. {c, c + 8})"

text \<open>
  The nodes of the free list are distinct, aligned, and lie in the heap.
\<close>

definition fl_ok :: "nat \<Rightarrow> nat \<Rightarrow> nat list \<Rightarrow> bool" where
  "fl_ok b E cs \<longleftrightarrow> distinct cs \<and> (\<forall>c \<in> set cs. 16 dvd c \<and> b + 64 \<le> c \<and> c + 32 \<le> E)"

text \<open>
  The state \<open>s\<close> represents the block list \<open>L\<close> and the free list \<open>fl\<close>, up to the tags of the
  blocks in \<open>U\<close>, which an operation in progress has still to write. The prologue header is in
  place, the word below the first header has a zero size field, and \<^verbatim>\<open>free_list_start\<close> is
  the first node, or the sentinel at the prologue footer when the list is empty.
\<close>

definition pre_rel :: "heap \<Rightarrow> nat \<Rightarrow> nat \<Rightarrow> blk list \<Rightarrow> nat list \<Rightarrow> blk set \<Rightarrow> bool" where
  "pre_rel s b E L fl U \<longleftrightarrow>
     region s b E \<and> chain (b + 64) L E \<and> (\<forall>blk \<in> set L - U. tagged (mem s) blk) \<and>
     mem s (wd (b + 8)) = 17 \<and> mem s (wd (b + 48)) AND NOT 15 = 0 \<and>
     fl_ok b E fl \<and> set fl \<subseteq> fst ` set L \<and> dll (mem s) 0 fl (b + 16) \<and>
     free_list_start s = wd (hd (fl @ [b + 16]))"

text \<open>
  The payload addresses of the free blocks.
\<close>

definition free_starts :: "blk list \<Rightarrow> nat set" where
  "free_starts L = {c. \<exists>z. (c, z, False) \<in> set L}"

text \<open>
  The invariant between operations: all tags are written, the epilogue header is the last
  word of the region, and the free list holds exactly the free blocks, except those in \<open>X\<close>
  that are about to be inserted.
\<close>

definition heap_rel :: "heap \<Rightarrow> nat \<Rightarrow> nat \<Rightarrow> blk list \<Rightarrow> nat list \<Rightarrow> nat set \<Rightarrow> bool" where
  "heap_rel s b E L fl X \<longleftrightarrow>
     pre_rel s b E L fl {} \<and> mem s (wd (E - 8)) = 1 \<and> set fl = free_starts L - X"

text \<open>
  The allocated blocks.
\<close>

definition allocd :: "blk list \<Rightarrow> blk set" where
  "allocd L = {blk \<in> set L. snd (snd blk)}"

text \<open>
  What \<^verbatim>\<open>coalesce\<close> achieves on a free block at \<open>c\<close> of size \<open>z\<close> that is not yet in the free
  list: the invariant holds again, with a free block that covers the given one, the
  allocated blocks are the same, and memory has changed only in link words and in the tags
  of the merged block.
\<close>

definition coal_post ::
  "heap \<Rightarrow> nat \<Rightarrow> nat \<Rightarrow> blk list \<Rightarrow> nat list \<Rightarrow> nat \<Rightarrow> nat \<Rightarrow> (addr \<times> heap) option \<Rightarrow> bool" where
  "coal_post s b E L fl c z r \<longleftrightarrow>
     (\<exists>c' z' L' fl' m'.
        r = Some (wd c', s\<lparr>mem := m', free_list_start := wd c'\<rparr>) \<and>
        heap_rel (s\<lparr>mem := m', free_list_start := wd c'\<rparr>) b E L' fl' {} \<and>
        (c', z', False) \<in> set L' \<and> c' \<le> c \<and> c + z \<le> c' + z' \<and>
        allocd L' = allocd L \<and>
        (\<forall>a. a < 2 ^ 64 \<and> a \<notin> links_of (c # fl) \<and> a \<noteq> b + 16 \<and> a \<noteq> c' - 8 \<and> a \<noteq> c' + z' - 16 \<longrightarrow>
           m' (wd a) = mem s (wd a)))"

text \<open>
  A region provider that has handed out nothing yet. Its start is a non-null multiple of 16,
  and the seventh word of the region has a zero size field, as in zero-filled memory:
  \<^verbatim>\<open>mm_init\<close> asks for eight words and writes four, and \<^verbatim>\<open>coalesce\<close> reads the seventh as the
  footer in front of the first block.
\<close>

definition provider_fresh :: "heap \<Rightarrow> bool" where
  "provider_fresh s \<longleftrightarrow>
     mem_brk s = mem_start_brk s \<and> mem_start_brk s \<noteq> 0 \<and> 16 dvd unat (mem_start_brk s) \<and>
     mem s (mem_start_brk s + 6 * WSIZE) AND NOT (DSIZE - 1) = 0"

text \<open>
  The cases in which \<^verbatim>\<open>mm_realloc\<close> does not move the block: the size is not positive as an
  \<^verbatim>\<open>int\<close> (the request is refused, or the block freed), the new size fits the block, or the
  next block is free and the two together are large enough.
\<close>

definition served_in_place :: "addr \<Rightarrow> 64 word \<Rightarrow> heap \<Rightarrow> bool" where
  "served_in_place bp sz s \<longleftrightarrow>
     sint (ucast sz :: cint) \<le> 0 \<or>
     (case size_at bp s of
        None \<Rightarrow> False
      | Some oldsize \<Rightarrow>
          sz + 2 * WSIZE \<le> oldsize \<or>
          (case NEXT_BLK s bp of
             None \<Rightarrow> False
           | Some nb \<Rightarrow>
               alloc_at nb s = Some 0 \<and>
               (case size_at nb s of
                  None \<Rightarrow> False
                | Some nsz \<Rightarrow> sz + 2 * WSIZE \<le> oldsize + nsz)))"

text \<open>
  The states between operations: after a successful \<^verbatim>\<open>mm_init\<close> on a fresh provider, after
  \<^verbatim>\<open>mm_malloc\<close> for at most \<open>2^32 - 32\<close> bytes (from \<open>2^32 - 31\<close> bytes on the adjusted size
  does not fit an \<^verbatim>\<open>int\<close>), after \<^verbatim>\<open>mm_free\<close> of an allocated block, after \<^verbatim>\<open>mm_realloc\<close> of an
  allocated block that is served in place, and after the user has stored a word into the
  payload of an allocated block.
\<close>

inductive reachable :: "heap \<Rightarrow> bool" where
  init: "provider_fresh s0 \<Longrightarrow> mm_init s0 = Some (0, s) \<Longrightarrow> reachable s"
| malloc: "reachable s \<Longrightarrow> unat sz + 31 < 2 ^ 32 \<Longrightarrow> mm_malloc sz s = Some (p, s') \<Longrightarrow> reachable s'"
| free: "reachable s \<Longrightarrow> bp \<in> set (heap_blocks s) \<Longrightarrow> alloc_at bp s = Some 1 \<Longrightarrow>
         mm_free bp s = Some s' \<Longrightarrow> reachable s'"
| realloc: "reachable s \<Longrightarrow> bp \<in> set (heap_blocks s) \<Longrightarrow> alloc_at bp s = Some 1 \<Longrightarrow>
            served_in_place bp sz s \<Longrightarrow> mm_realloc bp sz s = Some (p, s') \<Longrightarrow> reachable s'"
| store: "reachable s \<Longrightarrow> bp \<in> set (heap_blocks s) \<Longrightarrow> alloc_at bp s = Some 1 \<Longrightarrow>
          size_at bp s = Some z \<Longrightarrow> bp \<le> a \<Longrightarrow> unat a + 3 * unat WSIZE \<le> unat bp + unat z \<Longrightarrow>
          PUT a v s = Some s' \<Longrightarrow> reachable s'"

section \<open>The adjusted block size\<close>

lemma adjusted_size_unat:
  assumes "DSIZE < sz" "unat sz + 31 < 2 ^ 64"
  shows "unat (adjusted_size sz) = 16 * ((unat sz + 16 + 15) div 16)"
proof -
  have a: "unat (sz + 31) = unat sz + 31"
    using assms(2) unat_add_lem [of sz 31] by simp
  have b: "unat ((sz + 31) div 16) = (unat sz + 31) div 16"
    by (simp add: unat_div a)
  have "unat (16 * ((sz + 31) div 16)) = 16 * ((unat sz + 31) div 16)"
    using assms(2) b unat_mult_lem [of 16 "(sz + 31) div 16"] by simp linarith
  moreover have "sz + 16 + 15 = sz + 31" by simp
  ultimately show ?thesis using assms(1)
    by (simp add: adjusted_size_def DSIZE_def WSIZE_def not_le [symmetric] add.commute)
qed

lemma ceiling_div16: "16 * \<lceil>real n / 16\<rceil> = int (16 * ((n + 15) div 16))"
proof -
  have "\<lceil>real n / 16\<rceil> = \<lceil>of_int (int n) / (of_int 16 :: real)\<rceil>" by simp
  also have "\<dots> = - (- int n div 16)" by (rule ceiling_divide_eq_div)
  also have "\<dots> = int ((n + 15) div 16)" by (simp add: zdiv_int)
  finally show ?thesis by simp
qed

text \<open>
  C4, as stated, fails: the source divides with C's truncating division, so that a payload
  of 18 bytes gets a block of 48 bytes where the ceiling of \<open>(18 + 16 + 15) / 16\<close> would
  give 64; and for a payload of \<open>2^64 - 1\<close> bytes the sum wraps around and the adjusted
  size is 16, less than four words.
\<close>

theorem adjusted_size_counterexample:
  "adjusted_size 18 \<noteq> word_of_int (16 * \<lceil>(18 + 16 + (16 - 1)) / (16 :: real)\<rceil>)
   \<and> adjusted_size 0xFFFFFFFFFFFFFFFF < 4 * WSIZE"
  by (simp add: adjusted_size_def DSIZE_def WSIZE_def)

text \<open>
  C4, amended: a payload of at most one double word gets a block of two double words; a
  larger payload whose sum with 31 does not wrap around gets \<open>DSIZE\<close> times the integer
  quotient (rounded down) of \<open>size + DSIZE + DSIZE - 1\<close> by \<open>DSIZE\<close>, which is the payload plus
  the double word of overhead rounded up to a multiple of \<open>DSIZE\<close>, and is at least four
  words.
\<close>

theorem adjusted_size_rounds_up:
  "(sz \<le> DSIZE \<longrightarrow> adjusted_size sz = 2 * DSIZE) \<and>
   (DSIZE < sz \<and> unat sz + 31 < 2 ^ 64 \<longrightarrow>
      unat (adjusted_size sz) = unat DSIZE * ((unat sz + unat DSIZE + (unat DSIZE - 1)) div unat DSIZE) \<and>
      int (unat (adjusted_size sz)) = int (unat DSIZE) * \<lceil>real (unat sz + unat DSIZE) / real (unat DSIZE)\<rceil> \<and>
      4 * unat WSIZE \<le> unat (adjusted_size sz))"
proof (intro conjI impI)
  assume "sz \<le> DSIZE"
  then show "adjusted_size sz = 2 * DSIZE" by (simp add: adjusted_size_def)
next
  assume h: "DSIZE < sz \<and> unat sz + 31 < 2 ^ 64"
  have d: "unat DSIZE = 16" by (simp add: DSIZE_def WSIZE_def)
  have u: "unat (adjusted_size sz) = 16 * ((unat sz + 16 + 15) div 16)"
    using h by (simp add: adjusted_size_unat)
  show "unat (adjusted_size sz) = unat DSIZE * ((unat sz + unat DSIZE + (unat DSIZE - 1)) div unat DSIZE)"
    using u by (simp add: d)
  show "int (unat (adjusted_size sz)) = int (unat DSIZE) * \<lceil>real (unat sz + unat DSIZE) / real (unat DSIZE)\<rceil>"
    using u ceiling_div16 [of "unat sz + 16"] by (simp add: d add.commute)
  have g: "16 < unat sz"
    using h by (simp add: DSIZE_def WSIZE_def word_less_nat_alt)
  then have "2 \<le> (unat sz + 16 + 15) div 16" by arith
  then show "4 * unat WSIZE \<le> unat (adjusted_size sz)"
    using u by (simp add: WSIZE_def)
qed

theorem adjusted_size_rounds_up_witness:
  "(8 :: 64 word) \<le> DSIZE \<and> adjusted_size 8 = 2 * DSIZE \<and>
   DSIZE < (100 :: 64 word) \<and> unat (100 :: 64 word) + 31 < 2 ^ 64 \<and>
   unat (adjusted_size 100) = 128 \<and> 4 * unat WSIZE \<le> unat (adjusted_size 100)"
  using adjusted_size_rounds_up [of 8] adjusted_size_rounds_up [of 100]
  by (simp add: DSIZE_def WSIZE_def)

section \<open>Requests that wrap around\<close>

text \<open>
  C1: after initialisation, a request for \<open>2^64 - 1\<close> bytes is served with the block at
  \<open>0x10040\<close>, and the next request for 16 bytes with the block at \<open>0x10060\<close>, 32 bytes
  further: the payload of the second block lies inside the first request's byte range.
\<close>

theorem mm_malloc_overflow_overlap:
  "overflow_run = Some (0x10040, 0x10060)"
  unfolding overflow_run_def heap_after_init_def fresh_heap_def by code_simp

section \<open>Reallocation\<close>

text \<open>
  C2: \<^verbatim>\<open>mm_realloc\<close> has no branch for a null pointer. With a positive size it reads the
  header word below address 0, outside the region, where \<^verbatim>\<open>mm_malloc\<close> on the same
  state returns the block at \<open>0x10040\<close>.
\<close>

theorem mm_realloc_null_faults:
  "mm_realloc NULL 16 heap_after_init = None \<and>
   map_option fst (mm_malloc 16 heap_after_init) = Some 0x10040"
  unfolding heap_after_init_def fresh_heap_def by code_simp

section \<open>The reallocation that moves the block\<close>

text \<open>
  C8: when \<^verbatim>\<open>mm_realloc\<close> has to move the block, it calls \<^verbatim>\<open>place\<close> a second time, on the
  block that \<^verbatim>\<open>mm_malloc\<close> has just allocated, with a size that is not a multiple of
  \<open>DSIZE\<close>. After \<^verbatim>\<open>fallback_run\<close> the walk over the heap meets, at \<open>0x100A0\<close> and well before
  the end of the region at \<open>0x11060\<close>, a block whose header has size zero.
\<close>

theorem mm_realloc_fallback_breaks_sizes:
  "map_option heap_blocks fallback_run = Some [0x10040, 0x10060, 0x10080, 0x100A0] \<and>
   map_option block_sizes fallback_run = Some [Some 32, Some 32, Some 32, Some 0] \<and>
   map_option mem_brk fallback_run = Some 0x11060"
  unfolding fallback_run_def heap_after_init_def fresh_heap_def by code_simp

section \<open>The search for a fit\<close>

text \<open>
  C9: a request of \<open>0xFFFFFFF0\<close> bytes has the adjusted size \<open>2^32\<close>, which is 0 as an
  \<^verbatim>\<open>int\<close>, the initial value of \<^verbatim>\<open>last_malloced_size\<close>. After 31 such requests, all
  refused, the repeat counter is 31 and \<^verbatim>\<open>find_fit\<close> takes its shortcut: it extends the heap
  by 16 bytes and returns the block at \<open>0x10040\<close>, of 48 bytes.
\<close>

theorem find_fit_returns_small_block:
  "Option.bind (repeat_malloc 31 0xFFFFFFF0 heap_after_init) (find_fit_size 0x100000000)
     = Some (0x10040, 48) \<and>
   adjusted_size 0xFFFFFFF0 = 0x100000000"
  unfolding heap_after_init_def fresh_heap_def by code_simp

section \<open>Preservation of the block structure\<close>

lemma w_unat: "a < 2 ^ 64 \<Longrightarrow> unat (wd a) = a"
  by (simp add: wd_def unat_of_nat)

lemma wd_unat [simp]: "wd (unat w) = w"
  by (simp add: wd_def)

lemma w_inj: "a < 2 ^ 64 \<Longrightarrow> b < 2 ^ 64 \<Longrightarrow> (wd a = wd b) = (a = b)"
  by (simp add: wd_def word_of_nat_eq_iff take_bit_nat_eq_self)

lemma w_zero: "a < 2 ^ 64 \<Longrightarrow> (wd a = 0) = (a = 0)"
  using w_inj [of a 0] by (simp add: wd_def)

lemma w_aligned: "a < 2 ^ 64 \<Longrightarrow> (wd a AND 7 = 0) = (8 dvd a)"
  using and_mask_dvd_nat [of 3 "wd a"] by (simp add: w_unat mask_eq_exp_minus_1)

lemma w_add: "wd a + wd b = wd (a + b)"
  by (simp add: wd_def)

lemma w_add_num: "wd a + numeral k = wd (a + numeral k)"
  by (simp add: wd_def)

lemma w_sub: "b \<le> a \<Longrightarrow> wd a - wd b = wd (a - b)"
  by (simp add: wd_def)

lemma w_sub_num: "numeral k \<le> a \<Longrightarrow> wd a - numeral k = wd (a - numeral k)"
  by (simp add: wd_def)

lemma w_le: "a < 2 ^ 64 \<Longrightarrow> b < 2 ^ 64 \<Longrightarrow> (wd a \<le> wd b) = (a \<le> b)"
  by (simp add: word_le_nat_alt w_unat)

lemma w_less: "a < 2 ^ 64 \<Longrightarrow> b < 2 ^ 64 \<Longrightarrow> (wd a < wd b) = (a < b)"
  by (simp add: word_less_nat_alt w_unat)

lemma low_bits_zero:
  assumes "16 dvd z" "z < 2 ^ 64" "n < 4"
  shows "\<not> bit (wd z) n"
proof -
  have "wd z AND mask 4 = 0"
    using and_mask_dvd_nat [of 4 "wd z :: 64 word"] assms by (simp add: w_unat)
  then have "\<not> bit (wd z AND mask 4) n" by simp
  then show ?thesis using assms(3) by (simp add: bit_and_iff bit_mask_iff)
qed

lemma tagw_size: "16 dvd z \<Longrightarrow> z < 2 ^ 64 \<Longrightarrow> tagw z f AND NOT (DSIZE - 1) = wd z"
proof (rule bit_eqI)
  fix n
  assume a: "16 dvd z" "z < 2 ^ 64" and p: "possible_bit TYPE(64 word) n"
  have m: "(15 :: 64 word) = mask 4" by (simp add: mask_eq_exp_minus_1)
  show "bit (tagw z f AND NOT (DSIZE - 1)) n = bit (wd z) n"
  proof (cases "n < 4")
    case True
    then show ?thesis using low_bits_zero [OF a True]
      by (simp add: tagw_def PACK_def DSIZE_def WSIZE_def m bit_and_iff bit_not_iff bit_mask_iff)
  next
    case False
    then show ?thesis using p
      by (simp add: tagw_def PACK_def DSIZE_def WSIZE_def m bit_and_iff bit_or_iff bit_not_iff bit_mask_iff bit_1_iff)
  qed
qed

lemma tagw_alloc: "16 dvd z \<Longrightarrow> z < 2 ^ 64 \<Longrightarrow> tagw z f AND 1 = (if f then 1 else 0)"
proof (rule bit_eqI)
  fix n
  assume a: "16 dvd z" "z < 2 ^ 64" and p: "possible_bit TYPE(64 word) n"
  show "bit (tagw z f AND 1) n = bit (if f then 1 else 0 :: 64 word) n"
  proof (cases "n = 0")
    case True
    then show ?thesis using low_bits_zero [OF a, of 0]
      by (simp add: tagw_def PACK_def bit_and_iff bit_or_iff bit_1_iff)
  next
    case False
    then show ?thesis
      by (simp add: tagw_def PACK_def bit_and_iff bit_or_iff bit_1_iff)
  qed
qed

lemma region_bound: "region s b E \<Longrightarrow> E < 2 ^ 64 \<and> b < 2 ^ 64"
  using unsigned_less [of "mem_brk s", where ?'a = nat] unsigned_less [of "mem_start_brk s", where ?'a = nat]
  by (auto simp: region_def)

lemma region_upd [simp]:
  "region (s\<lparr>mem := m\<rparr>) b E = region s b E"
  "region (s\<lparr>free_list_start := x\<rparr>) b E = region s b E"
  "region (s\<lparr>last_malloced_size := l\<rparr>) b E = region s b E"
  "region (s\<lparr>repeat_counter := r\<rparr>) b E = region s b E"
  by (simp_all add: region_def)

lemma valid_addr_upd [simp]:
  "valid_addr (s\<lparr>mem := m\<rparr>) p = valid_addr s p"
  "valid_addr (s\<lparr>free_list_start := x\<rparr>) p = valid_addr s p"
  "valid_addr (s\<lparr>last_malloced_size := l\<rparr>) p = valid_addr s p"
  "valid_addr (s\<lparr>repeat_counter := r\<rparr>) p = valid_addr s p"
  by (simp_all add: valid_addr_def)

lemma valid_nat:
  assumes "region s b E" "8 dvd a" "b \<le> a" "a + 8 \<le> E"
  shows "valid_addr s (wd a)"
proof -
  have l: "a < 2 ^ 64" using region_bound [OF assms(1)] assms(4) by simp
  have "uint (wd a) = int a" using l by (simp add: uint_nat w_unat)
  moreover have "uint (mem_start_brk s) = int b" "uint (mem_brk s) = int E"
    using assms(1) by (simp_all add: region_def uint_nat)
  ultimately show ?thesis using assms l by (simp add: valid_addr_def w_aligned)
qed

lemma GET_valid: "valid_addr s p \<Longrightarrow> GET s p = Some (mem s p)"
  by (simp add: GET_def)

lemma PUT_valid: "valid_addr s p \<Longrightarrow> PUT p v s = Some (s\<lparr>mem := (mem s)(p := v)\<rparr>)"
  by (simp add: PUT_def)

lemma GET_SIZE_tag:
  "valid_addr s p \<Longrightarrow> mem s p = tagw z f \<Longrightarrow> 16 dvd z \<Longrightarrow> z < 2 ^ 64 \<Longrightarrow> GET_SIZE s p = Some (wd z)"
  by (simp add: GET_SIZE_def GET_valid tagw_size)

lemma GET_ALLOC_tag:
  "valid_addr s p \<Longrightarrow> mem s p = tagw z f \<Longrightarrow> 16 dvd z \<Longrightarrow> z < 2 ^ 64 \<Longrightarrow>
   GET_ALLOC s p = Some (if f then 1 else 0)"
  by (simp add: GET_ALLOC_def GET_valid tagw_alloc)

lemma HDRP_nat: "8 \<le> c \<Longrightarrow> HDRP (wd c) = wd (c - 8)"
  by (simp add: HDRP_def WSIZE_def w_sub_num)

lemma tagw_simps: "tagw 0 True = 1" "tagw 16 True = 17" "PACK (wd z) 0 = tagw z False" "PACK (wd z) 1 = tagw z True"
  by (simp_all add: tagw_def PACK_def wd_def)

text \<open>What the macros read at a block whose header holds a tag.\<close>

lemma block_reads:
  assumes r: "region s b E" and c: "16 dvd c" "b + 8 \<le> c" "c \<le> E"
    and h: "mem s (wd (c - 8)) = tagw z f" and z: "16 dvd z" "c + z < 2 ^ 64"
  shows "GET_SIZE s (HDRP (wd c)) = Some (wd z)"
    and "GET_ALLOC s (HDRP (wd c)) = Some (if f then 1 else 0)"
    and "FTRP s (wd c) = Some (wd (c + z - 16))"
    and "NEXT_BLK s (wd c) = Some (wd (c + z))"
proof -
  have v: "valid_addr s (wd (c - 8))"
    using r c by (intro valid_nat [OF r]) (auto simp: region_def elim!: dvdE)
  have hp: "HDRP (wd c) = wd (c - 8)" using c by (simp add: HDRP_nat)
  have zl: "z < 2 ^ 64" using z by simp
  show g: "GET_SIZE s (HDRP (wd c)) = Some (wd z)"
    using v h z zl by (simp add: hp GET_SIZE_tag)
  show "GET_ALLOC s (HDRP (wd c)) = Some (if f then 1 else 0)"
    using v h z zl by (simp add: hp GET_ALLOC_tag)
  have "16 \<le> c" using r c by (auto simp: region_def)
  then show "FTRP s (wd c) = Some (wd (c + z - 16))"
    by (simp add: FTRP_def g DSIZE_def WSIZE_def w_add w_sub_num)
  show "NEXT_BLK s (wd c) = Some (wd (c + z))"
    by (simp add: NEXT_BLK_def g w_add)
qed

lemma chain_append: "chain a (xs @ ys) e = (\<exists>m. chain a xs m \<and> chain m ys e)"
  by (induction xs arbitrary: a) auto

lemma chain_le: "chain a L e \<Longrightarrow> a \<le> e"
  by (induction L arbitrary: a) fastforce+

lemma chain_mem:
  "chain a L e \<Longrightarrow> (c, z, f) \<in> set L \<Longrightarrow> 16 dvd a \<Longrightarrow>
   a \<le> c \<and> c + z \<le> e \<and> 16 dvd z \<and> 32 \<le> z \<and> 16 dvd c"
proof (induction L arbitrary: a)
  case Nil
  then show ?case by simp
next
  case (Cons x L)
  obtain c' z' f' where x: "x = (c', z', f')" by (cases x) auto
  show ?case
  proof (cases "(c, z, f) = x")
    case True
    then show ?thesis using Cons.prems chain_le [of "a + z'" L e] by (auto simp: x)
  next
    case False
    then have "(c, z, f) \<in> set L" using Cons.prems by auto
    moreover have "chain (a + z') L e" "16 dvd (a + z')" using Cons.prems by (auto simp: x)
    ultimately have "a + z' \<le> c \<and> c + z \<le> e \<and> 16 dvd z \<and> 32 \<le> z \<and> 16 dvd c"
      using Cons.IH [of "a + z'"] by blast
    then show ?thesis by simp
  qed
qed

lemma chain_split:
  assumes "chain a L e" "(c, z, f) \<in> set L"
  shows "\<exists>xs ys. L = xs @ (c, z, f) # ys \<and> chain a xs c \<and> chain (c + z) ys e"
proof -
  obtain xs ys where L: "L = xs @ (c, z, f) # ys" using assms(2) by (meson split_list)
  then show ?thesis using assms(1) by (auto simp: chain_append)
qed

lemma tags_of_simps [simp]:
  "tags_of [] = {}"
  "tags_of ((c, z, f) # L) = {c - 8, c + z - 16} \<union> tags_of L"
  "tags_of (xs @ ys) = tags_of xs \<union> tags_of ys"
  by (auto simp: tags_of_def)

lemma tags_of_bounds:
  "chain a L e \<Longrightarrow> 8 \<le> a \<Longrightarrow> t \<in> tags_of L \<Longrightarrow> a - 8 \<le> t \<and> t + 16 \<le> e"
proof (induction L arbitrary: a)
  case Nil
  then show ?case by simp
next
  case (Cons x L)
  obtain c z f where x: "x = (c, z, f)" by (cases x) auto
  have ch: "chain (a + z) L e" and ca: "c = a" and z: "32 \<le> z" using Cons.prems by (auto simp: x)
  have le: "a + z \<le> e" using chain_le [OF ch] .
  show ?case
  proof (cases "t \<in> tags_of L")
    case True
    then have "a + z - 8 \<le> t \<and> t + 16 \<le> e" using Cons.IH [OF ch] Cons.prems by simp
    then show ?thesis by arith
  next
    case False
    then have "t = c - 8 \<or> t = c + z - 16" using Cons.prems by (auto simp: x)
    then show ?thesis using ca z le Cons.prems(2) by auto
  qed
qed

text \<open>Payload words (free-list links among them) are no boundary tags.\<close>

lemma payload_not_tag:
  assumes ch: "chain a L e" and a: "8 \<le> a" and b: "(c, z, f) \<in> set L"
    and p: "c \<le> t" "t + 16 < c + z"
  shows "t \<notin> tags_of L"
proof -
  obtain xs ys where L: "L = xs @ (c, z, f) # ys" and cx: "chain a xs c" and cy: "chain (c + z) ys e"
    using chain_split [OF ch b] by blast
  have "t \<notin> tags_of xs" using tags_of_bounds [OF cx a, of t] p by auto
  moreover have "t \<notin> tags_of ys" using tags_of_bounds [OF cy, of t] p by auto
  moreover have "8 \<le> c" using chain_le [OF cx] a by simp
  then have "t \<noteq> c - 8" "t \<noteq> c + z - 16" using p by auto
  ultimately show ?thesis by (simp add: L)
qed

lemma tagged_cong:
  "\<forall>x \<in> tags_of L. m' (wd x) = m (wd x) \<Longrightarrow> list_all (tagged m') L = list_all (tagged m) L"
proof (induction L)
  case Nil
  then show ?case by simp
next
  case (Cons x L)
  obtain c z f where x: "x = (c, z, f)" by (cases x) auto
  have "tagged m' x = tagged m x" using Cons.prems by (simp add: tagged_def x)
  moreover have "list_all (tagged m') L = list_all (tagged m) L"
    using Cons.prems by (intro Cons.IH) (simp add: x)
  ultimately show ?case by simp
qed

lemma tagged_upd:
  assumes "t \<notin> tags_of L" "t < 2 ^ 64" "\<forall>x \<in> tags_of L. x < 2 ^ 64"
  shows "list_all (tagged (m(wd t := v))) L = list_all (tagged m) L"
proof (rule tagged_cong, rule ballI)
  fix x assume "x \<in> tags_of L"
  then have "x \<noteq> t" "x < 2 ^ 64" using assms by auto
  then show "(m(wd t := v)) (wd x) = m (wd x)" using assms(2) by (simp add: w_inj)
qed

lemma links_of_simps [simp]:
  "links_of [] = {}"
  "links_of (c # cs) = {c, c + 8} \<union> links_of cs"
  "links_of (xs @ ys) = links_of xs \<union> links_of ys"
  by (auto simp: links_of_def)

lemma dll_cong:
  "\<forall>x \<in> links_of cs. m' (wd x) = m (wd x) \<Longrightarrow> dll m' p cs S = dll m p cs S"
proof (induction cs arbitrary: p)
  case Nil
  then show ?case by simp
next
  case (Cons c cs)
  have "dll m' (wd c) cs S = dll m (wd c) cs S" using Cons.prems by (intro Cons.IH) simp
  then show ?case using Cons.prems by simp
qed

lemma dll_upd:
  assumes "a \<notin> links_of cs" "a < 2 ^ 64" "\<forall>c \<in> set cs. c + 8 < 2 ^ 64"
  shows "dll (m(wd a := v)) p cs S = dll m p cs S"
proof (rule dll_cong, rule ballI)
  fix x assume "x \<in> links_of cs"
  then have "x \<noteq> a" "x < 2 ^ 64" using assms by (auto simp: links_of_def)
  then show "(m(wd a := v)) (wd x) = m (wd x)" using assms(2) by (simp add: w_inj)
qed

lemma dll_append:
  "dll m p (xs @ ys) S =
     (dll m p xs (hd (ys @ [S])) \<and> dll m (if xs = [] then p else wd (last xs)) ys S)"
proof (induction xs arbitrary: p)
  case Nil
  then show ?case by simp
next
  case (Cons x xs)
  then show ?case by (cases xs) auto
qed

lemma not_in_links:
  assumes "16 dvd a" "a \<notin> set cs" "\<forall>c \<in> set cs. 16 dvd c"
  shows "a \<notin> links_of cs" "a + 8 \<notin> links_of cs"
proof -
  have "\<And>c. c \<in> set cs \<Longrightarrow> a \<noteq> c + 8 \<and> a + 8 \<noteq> c"
  proof -
    fix c assume "c \<in> set cs"
    then have "16 dvd c" using assms(3) by simp
    then show "a \<noteq> c + 8 \<and> a + 8 \<noteq> c" using assms(1) by presburger
  qed
  then show "a \<notin> links_of cs" "a + 8 \<notin> links_of cs"
    using assms(2) by (auto simp: links_of_def)
qed

lemma dll_last_next_cong:
  assumes "dll m p xs S1" "xs \<noteq> []" "distinct xs" "\<forall>c \<in> set xs. 16 dvd c"
    and "\<forall>x \<in> links_of xs. x \<noteq> last xs + 8 \<longrightarrow> m' (wd x) = m (wd x)"
    and "m' (wd (last xs + 8)) = wd S2"
  shows "dll m' p xs S2"
  using assms
proof (induction xs arbitrary: p)
  case Nil
  then show ?case by simp
next
  case (Cons c cs)
  show ?case
  proof (cases cs)
    case Nil
    then show ?thesis using Cons.prems by simp
  next
    case (Cons c' cs')
    let ?l = "last cs"
    have ne: "cs \<noteq> []" using Cons by simp
    have lm: "?l \<in> set cs" using ne by simp
    then have l: "16 dvd ?l" "?l \<noteq> c" using Cons.prems(3,4) by auto
    have c16: "16 dvd c" using Cons.prems(4) by simp
    have n1: "c \<noteq> ?l + 8" using l(1) c16 by presburger
    have lst: "last (c # cs) = ?l" using ne by simp
    have ih: "dll m' (wd c) cs S2"
      using Cons.prems ne by (intro Cons.IH) (auto simp: lst)
    have e: "m' (wd c) = m (wd c)" "m' (wd (c + 8)) = m (wd (c + 8))"
      using Cons.prems(5) n1 l ne by (simp_all add: lst)
    have hd: "hd (cs @ [S2]) = hd (cs @ [S1])" using ne by (cases cs) auto
    show ?thesis using Cons.prems(1) ih e hd by simp
  qed
qed

lemma dll_set_last_next:
  assumes "dll m p xs S1" "xs \<noteq> []" "distinct xs" "\<forall>c \<in> set xs. 16 dvd c \<and> c + 8 < 2 ^ 64"
  shows "dll (m(wd (last xs + 8) := wd S2)) p xs S2"
proof (rule dll_last_next_cong [OF assms(1-3)])
  show "\<forall>c \<in> set xs. 16 dvd c" using assms(4) by simp
  have l: "last xs + 8 < 2 ^ 64" using assms(2,4) by simp
  show "\<forall>x \<in> links_of xs. x \<noteq> last xs + 8 \<longrightarrow>
          (m(wd (last xs + 8) := wd S2)) (wd x) = m (wd x)"
  proof (intro ballI impI)
    fix x assume "x \<in> links_of xs" "x \<noteq> last xs + 8"
    moreover from this have "x < 2 ^ 64" using assms(4) by (auto simp: links_of_def)
    ultimately show "(m(wd (last xs + 8) := wd S2)) (wd x) = m (wd x)"
      using l by (simp add: w_inj)
  qed
  show "(m(wd (last xs + 8) := wd S2)) (wd (last xs + 8)) = wd S2" by simp
qed

lemma dll_set_head_prev:
  assumes "dll m p ys S" "distinct ys" "\<forall>c \<in> set ys. 16 dvd c \<and> c + 8 < 2 ^ 64"
  shows "dll (m(wd (hd (ys @ [S])) := q)) q ys S"
proof (cases ys)
  case Nil
  then show ?thesis by simp
next
  case (Cons y ys')
  have y: "16 dvd y" "y < 2 ^ 64" "y + 8 < 2 ^ 64" "y \<notin> set ys'" using assms Cons by auto
  have "y \<notin> links_of ys'" using not_in_links(1) [of y ys'] y assms(3) Cons by auto
  then have "dll (m(wd y := q)) (wd y) ys' S = dll m (wd y) ys' S"
    using dll_upd [of y ys'] y assms(3) Cons by auto
  moreover have "(m(wd y := q)) (wd (y + 8)) = m (wd (y + 8))" using y by (simp add: w_inj)
  ultimately show ?thesis using assms(1) Cons by simp
qed

lemma fl_okD:
  assumes "fl_ok b E cs" "E < 2 ^ 64"
  shows "distinct cs" "\<forall>c \<in> set cs. 16 dvd c \<and> c + 8 < 2 ^ 64" "\<forall>c \<in> set cs. 16 dvd c" "b + 16 \<notin> set cs"
  using assms by (auto simp: fl_ok_def)

lemma remove_dll:
  assumes r: "region s b E" and ok: "fl_ok b E fl"
    and l: "dll (mem s) 0 fl (b + 16)" and h: "free_list_start s = wd (hd (fl @ [b + 16]))"
    and c: "fl = xs @ c # ys"
  defines "n \<equiv> hd (ys @ [b + 16])"
  defines "m' \<equiv> (if xs = [] then (mem s)(wd n := 0)
                  else (mem s)(wd (last xs + 8) := wd n, wd n := wd (last xs)))"
  shows "remove_from_free_list (wd c) s =
           Some (s\<lparr>mem := m', free_list_start := wd (hd (xs @ ys @ [b + 16]))\<rparr>)"
    and "dll m' 0 (xs @ ys) (b + 16)"
proof -
  let ?S = "b + 16"
  let ?m = "mem s"
  let ?pw = "if xs = [] then 0 else wd (last xs)"
  have El: "E < 2 ^ 64" "b < 2 ^ 64" using region_bound [OF r] by auto
  have b16: "16 dvd b" "0 < b" using r by (auto simp: region_def)
  have oks: "distinct fl" "\<forall>c \<in> set fl. 16 dvd c \<and> c + 8 < 2 ^ 64" "?S \<notin> set fl"
    using fl_okD [OF ok El(1)] by auto
  have cin: "16 dvd c" "b + 64 \<le> c" "c + 32 \<le> E" using ok c by (auto simp: fl_ok_def)
  have dx: "dll ?m 0 xs c" and mc: "?m (wd c) = ?pw" and mn: "?m (wd (c + 8)) = wd n"
    and dy: "dll ?m (wd c) ys ?S"
    using l by (auto simp: c dll_append n_def)
  have n_in: "n \<in> set ys \<or> n = ?S" by (cases ys) (auto simp: n_def)
  have n16: "16 dvd n \<and> b + 16 \<le> n \<and> n + 32 \<le> E \<and> n \<noteq> c \<and> n \<notin> set xs"
  proof (cases "n = ?S")
    case True
    then show ?thesis using oks(3) b16 cin c by auto
  next
    case False
    then have "n \<in> set ys" using n_in by simp
    then have "n \<in> set fl" "n \<noteq> c" "n \<notin> set xs" using c oks(1) by auto
    then show ?thesis using ok by (auto simp: fl_ok_def)
  qed
  have vc: "valid_addr s (wd c)" "valid_addr s (wd (c + 8))"
    using cin by (auto intro!: valid_nat [OF r] elim!: dvdE)
  have vn: "valid_addr s (wd n)"
    using n16 by (auto intro!: valid_nat [OF r] elim!: dvdE)
  show "remove_from_free_list (wd c) s =
           Some (s\<lparr>mem := m', free_list_start := wd (hd (xs @ ys @ [b + 16]))\<rparr>)"
  proof (cases "xs = []")
    case True
    then show ?thesis
      using vc vn mc mn
      by (simp add: remove_from_free_list_def GET_PREV_PTR_def GET_NEXT_PTR_def GET_valid PUT_valid
          SET_NEXT_PTR_def SET_PREV_PTR_def NULL_def WSIZE_def w_add_num m'_def n_def)
  next
    case False
    let ?l = "last xs"
    have lin: "?l \<in> set fl" using False c by simp
    then have l16: "16 dvd ?l" "b + 64 \<le> ?l" "?l + 32 \<le> E" "?l \<noteq> c" "?l \<noteq> n"
      using ok c False n16 by (auto simp: fl_ok_def)
    have vl: "valid_addr s (wd (?l + 8))"
      using l16 by (auto intro!: valid_nat [OF r] elim!: dvdE)
    have nz: "wd ?l \<noteq> 0" using l16 El b16 by (simp add: w_zero)
    have ne1: "?l + 8 \<noteq> c" using l16(1) cin(1) by presburger
    have ne2: "?l + 8 \<noteq> c + 8" using l16 by simp
    have hdx: "hd (xs @ ys @ [b + 16]) = hd (fl @ [b + 16])" using False by (cases xs) (auto simp: c)
    have e1: "(?m(wd (?l + 8) := wd n)) (wd (c + 8)) = wd n"
      "(?m(wd (?l + 8) := wd n)) (wd c) = wd ?l"
      using ne1 ne2 mn mc False l16 cin El by (simp_all add: w_inj)
    show ?thesis
      using False vc vn vl mc mn nz e1
      by (simp add: remove_from_free_list_def GET_PREV_PTR_def GET_NEXT_PTR_def GET_valid PUT_valid
          SET_NEXT_PTR_def SET_PREV_PTR_def NULL_def WSIZE_def w_add_num m'_def hdx h)
  qed
  have oky: "distinct ys" "\<forall>c \<in> set ys. 16 dvd c \<and> c + 8 < 2 ^ 64"
    and okx: "distinct xs" "\<forall>c \<in> set xs. 16 dvd c \<and> c + 8 < 2 ^ 64"
    using oks c by auto
  show "dll m' 0 (xs @ ys) (b + 16)"
  proof (cases "xs = []")
    case True
    then show ?thesis
      using dll_set_head_prev [OF dy oky, of 0] by (simp add: m'_def n_def)
  next
    case False
    let ?l = "last xs"
    let ?m1 = "?m(wd (?l + 8) := wd n)"
    have lin: "?l \<in> set xs" using False by simp
    have l16: "16 dvd ?l" "?l + 8 < 2 ^ 64" "?l \<notin> set ys"
      using okx lin oks(1) c by auto
    have nl: "n < 2 ^ 64" using n16 El by simp
    have a: "dll ?m1 0 xs n" using dll_set_last_next [OF dx False okx] .
    have "n \<notin> links_of xs" using not_in_links(1) [of n xs] n16 okx by auto
    then have a': "dll (?m1(wd n := wd ?l)) 0 xs n"
      using dll_upd [of n xs ?m1] a nl okx by simp
    have "?l + 8 \<notin> links_of ys" using not_in_links(2) [of ?l ys] l16 oky by auto
    then have "dll ?m1 (wd c) ys ?S" using dll_upd [of "?l + 8" ys ?m] dy l16 oky by simp
    then have b': "dll (?m1(wd n := wd ?l)) (wd ?l) ys ?S"
      using dll_set_head_prev [OF _ oky, of ?m1 "wd c" ?S "wd ?l"] by (simp add: n_def)
    show ?thesis using a' b' False by (simp add: dll_append m'_def n_def)
  qed
qed

lemma insert_dll:
  assumes r: "region s b E" and ok: "fl_ok b E fl"
    and l: "dll (mem s) 0 fl (b + 16)" and h: "free_list_start s = wd (hd (fl @ [b + 16]))"
    and c: "16 dvd c" "b + 64 \<le> c" "c + 32 \<le> E" "c \<notin> set fl"
  defines "n \<equiv> hd (fl @ [b + 16])"
  defines "m' \<equiv> (mem s)(wd (c + 8) := wd n, wd n := wd c, wd c := 0)"
  shows "insert_in_free_list (wd c) s = Some (s\<lparr>mem := m', free_list_start := wd c\<rparr>)"
    and "dll m' 0 (c # fl) (b + 16)"
proof -
  let ?S = "b + 16"
  let ?m = "mem s"
  have El: "E < 2 ^ 64" "b < 2 ^ 64" using region_bound [OF r] by auto
  have b16: "16 dvd b" "0 < b" using r by (auto simp: region_def)
  have oks: "distinct fl" "\<forall>c \<in> set fl. 16 dvd c \<and> c + 8 < 2 ^ 64" "\<forall>c \<in> set fl. 16 dvd c"
    using fl_okD [OF ok El(1)] by auto
  have n16: "16 dvd n \<and> b + 16 \<le> n \<and> n + 32 \<le> E \<and> n \<noteq> c"
  proof (cases fl)
    case Nil
    then show ?thesis using b16 c by (auto simp: n_def)
  next
    case (Cons x xs)
    then have "n \<in> set fl" by (simp add: n_def)
    then show ?thesis using ok c(4) by (auto simp: fl_ok_def)
  qed
  have vc: "valid_addr s (wd c)" "valid_addr s (wd (c + 8))"
    using c by (auto intro!: valid_nat [OF r] elim!: dvdE)
  have vn: "valid_addr s (wd n)"
    using n16 by (auto intro!: valid_nat [OF r] elim!: dvdE)
  show "insert_in_free_list (wd c) s = Some (s\<lparr>mem := m', free_list_start := wd c\<rparr>)"
    using vc vn
    by (simp add: insert_in_free_list_def SET_NEXT_PTR_def SET_PREV_PTR_def PUT_valid NULL_def
        WSIZE_def w_add_num h m'_def n_def)
  let ?m1 = "?m(wd (c + 8) := wd n)"
  let ?m2 = "?m1(wd n := wd c)"
  have cl: "c < 2 ^ 64" "c + 8 < 2 ^ 64" "n < 2 ^ 64" using c El n16 by auto
  have nl: "c \<notin> links_of fl" "c + 8 \<notin> links_of fl"
    using not_in_links [of c fl] c oks by auto
  have "dll ?m1 0 fl ?S" using dll_upd [OF nl(2) cl(2), of ?m] oks(2) l by simp
  then have "dll ?m2 (wd c) fl ?S"
    using dll_set_head_prev [OF _ oks(1,2), of ?m1 0 ?S "wd c"] by (simp add: n_def)
  then have d: "dll (?m2(wd c := 0)) (wd c) fl ?S"
    using dll_upd [OF nl(1) cl(1), of ?m2] oks(2) by simp
  have ne: "c + 8 \<noteq> n" using n16 c(1) by presburger
  have e: "(?m2(wd c := 0)) (wd (c + 8)) = wd n"
    using ne cl by (simp add: w_inj)
  show "dll m' 0 (c # fl) (b + 16)"
    using d e by (simp add: m'_def n_def)
qed

lemma find_fit_loop_dll:
  assumes r: "region s b E" and ok: "fl_ok b E cs" and l: "dll (mem s) p cs (b + 16)"
    and S: "mem s (wd (b + 8)) = 17" and E: "b + 64 \<le> E"
    and z: "\<forall>c \<in> set cs. mem s (wd (c - 8)) = tagw (zs c) False \<and> 16 dvd zs c \<and> zs c < 2 ^ 64"
  shows "find_fit_loop asize (wd (hd (cs @ [b + 16]))) s =
           Some (case find (\<lambda>c. unat asize \<le> zs c) cs of
                   None \<Rightarrow> (NULL, s)
                 | Some c \<Rightarrow> (wd c, s\<lparr>last_malloced_size := ucast asize\<rparr>))"
  using ok l z
proof (induction cs arbitrary: p)
  case Nil
  have b16: "16 dvd b" "0 < b" using r by (auto simp: region_def)
  have "b + 16 - 8 = b + 8" by simp
  then have "mem s (wd (b + 16 - 8)) = tagw 16 True" using S by (simp only: tagw_simps)
  moreover have "b + 16 + 16 < 2 ^ 64" "16 dvd b + 16" using E b16 region_bound [OF r] by auto
  ultimately have "GET_ALLOC s (HDRP (wd (b + 16))) = Some (if True then 1 else 0)"
    using E by (intro block_reads(2) [OF r, of "b + 16" 16 True]) auto
  then show ?case
    by (subst find_fit_loop.simps) simp
next
  case (Cons c cs)
  have cin: "16 dvd c" "b + 64 \<le> c" "c + 32 \<le> E" using Cons.prems(1) by (auto simp: fl_ok_def)
  have zc: "mem s (wd (c - 8)) = tagw (zs c) False" "16 dvd zs c" "zs c < 2 ^ 64"
    using Cons.prems(3) by auto
  have El: "E < 2 ^ 64" using region_bound [OF r] by simp
  have rd: "GET_ALLOC s (HDRP (wd c)) = Some 0" "GET_SIZE s (HDRP (wd c)) = Some (wd (zs c))"
    using GET_ALLOC_tag [of s "wd (c - 8)" "zs c" False] GET_SIZE_tag [of s "wd (c - 8)" "zs c" False]
      valid_nat [OF r, of "c - 8"] cin zc
    by (auto simp: HDRP_nat elim!: dvdE)
  have cmp: "(asize \<le> wd (zs c)) = (unat asize \<le> zs c)"
    using zc by (simp add: word_le_nat_alt w_unat)
  have nx: "GET_NEXT_PTR s (wd c) = Some (wd (hd (cs @ [b + 16])))"
    using Cons.prems(2) valid_nat [OF r, of "c + 8"] cin
    by (auto simp: GET_NEXT_PTR_def WSIZE_def w_add_num GET_valid elim!: dvdE)
  have ih: "find_fit_loop asize (wd (hd (cs @ [b + 16]))) s =
           Some (case find (\<lambda>c. unat asize \<le> zs c) cs of
                   None \<Rightarrow> (NULL, s)
                 | Some c \<Rightarrow> (wd c, s\<lparr>last_malloced_size := ucast asize\<rparr>))"
    using Cons.prems by (intro Cons.IH [of "wd c"]) (auto simp: fl_ok_def)
  show ?case
    by (subst find_fit_loop.simps) (simp add: rd cmp nx ih)
qed

lemma pre_relD:
  assumes "pre_rel s b E L fl U"
  shows "region s b E" "chain (b + 64) L E" "16 dvd b" "0 < b" "b + 64 \<le> E" "E < 2 ^ 64"
    "fl_ok b E fl" "dll (mem s) 0 fl (b + 16)" "free_list_start s = wd (hd (fl @ [b + 16]))"
    "mem s (wd (b + 8)) = 17" "mem s (wd (b + 48)) AND NOT 15 = 0"
  using assms chain_le [of "b + 64" L E] region_bound [of s b E]
  by (auto simp: pre_rel_def region_def)

lemma rel_blk:
  assumes "pre_rel s b E L fl U" "(c, z, f) \<in> set L"
  shows "16 dvd c" "16 dvd z" "32 \<le> z" "b + 64 \<le> c" "c + z \<le> E" "c + z < 2 ^ 64"
proof -
  have ch: "chain (b + 64) L E" and b: "16 dvd b" and E: "E < 2 ^ 64"
    using pre_relD [OF assms(1)] by auto
  have "b + 64 \<le> c \<and> c + z \<le> E \<and> 16 dvd z \<and> 32 \<le> z \<and> 16 dvd c"
    using chain_mem [OF ch assms(2)] b by simp
  then show "16 dvd c" "16 dvd z" "32 \<le> z" "b + 64 \<le> c" "c + z \<le> E" "c + z < 2 ^ 64"
    using E by auto
qed

lemma rel_tags_bounds:
  assumes "pre_rel s b E L fl U" "t \<in> tags_of L"
  shows "b + 56 \<le> t" "t + 16 \<le> E"
  using tags_of_bounds [of "b + 64" L E t] pre_relD [OF assms(1)] assms(2) by auto

lemma rel_link_not_tag:
  assumes p: "pre_rel s b E L fl U" and x: "x \<in> fst ` set L \<or> x = b + 16"
  shows "x \<notin> tags_of L" "x + 8 \<notin> tags_of L"
proof -
  have ch: "chain (b + 64) L E" using pre_relD [OF p] by simp
  show "x \<notin> tags_of L"
  proof (cases "x = b + 16")
    case True
    then show ?thesis using rel_tags_bounds(1) [OF p, of x] by auto
  next
    case False
    then obtain z f where m: "(x, z, f) \<in> set L" using x by auto
    then show ?thesis using payload_not_tag [OF ch _ m, of x] rel_blk [OF p m] by simp
  qed
  show "x + 8 \<notin> tags_of L"
  proof (cases "x = b + 16")
    case True
    then show ?thesis using rel_tags_bounds(1) [OF p, of "x + 8"] by auto
  next
    case False
    then obtain z f where m: "(x, z, f) \<in> set L" using x by auto
    then show ?thesis using payload_not_tag [OF ch _ m, of "x + 8"] rel_blk [OF p m] by simp
  qed
qed

lemma blk_tags_in: "(c, z, f) \<in> set L \<Longrightarrow> c - 8 \<in> tags_of L \<and> c + z - 16 \<in> tags_of L"
  by (auto simp: tags_of_def)

lemma rel_fl_links:
  assumes p: "pre_rel s b E L fl U" and sub: "set cs \<subseteq> fst ` set L"
    and a: "a \<in> links_of cs \<or> a = b + 16"
  shows "a \<notin> tags_of L" "a \<noteq> b + 8" "a \<noteq> b + 48" "a + 16 \<le> E" "a \<noteq> E - 8"
proof -
  have E: "b + 64 \<le> E" using pre_relD [OF p] by simp
  from a obtain x where x: "x \<in> set cs \<or> x = b + 16" "a = x \<or> a = x + 8" "a = b + 16 \<longrightarrow> x = b + 16"
    by (auto simp: links_of_def)
  have xl: "x \<in> fst ` set L \<or> x = b + 16" using x(1) sub by auto
  show "a \<notin> tags_of L" using rel_link_not_tag [OF p xl] x(2) by auto
  have "(x = b + 16 \<or> b + 64 \<le> x) \<and> x + 32 \<le> E \<and> 16 dvd x"
  proof (cases "x = b + 16")
    case True
    then show ?thesis using E pre_relD(3) [OF p] by simp
  next
    case False
    then obtain z f where m: "(x, z, f) \<in> set L" using xl by auto
    show ?thesis using rel_blk [OF p m] by simp
  qed
  then show "a \<noteq> b + 8" "a \<noteq> b + 48" "a + 16 \<le> E" "a \<noteq> E - 8"
    using x(2,3) pre_relD(3) [OF p] by (auto elim!: dvdE)
qed

lemma chain_bounds:
  "chain a L e \<Longrightarrow> (c, z, f) \<in> set L \<Longrightarrow> a \<le> c \<and> c + z \<le> e \<and> 32 \<le> z"
proof (induction L arbitrary: a)
  case Nil
  then show ?case by simp
next
  case (Cons x L)
  obtain c' z' f' where x: "x = (c', z', f')" by (cases x) auto
  show ?case
  proof (cases "(c, z, f) = x")
    case True
    then show ?thesis using Cons.prems chain_le [of "a + z'" L e] by (auto simp: x)
  next
    case False
    then have "(c, z, f) \<in> set L" using Cons.prems by auto
    moreover have "chain (a + z') L e" using Cons.prems by (auto simp: x)
    ultimately have "a + z' \<le> c \<and> c + z \<le> e \<and> 32 \<le> z"
      using Cons.IH [of "a + z'"] by blast
    then show ?thesis by simp
  qed
qed

lemma chain_disjoint:
  assumes ch: "chain a L e" and m1: "(c1, z1, f1) \<in> set L" and m2: "(c2, z2, f2) \<in> set L"
    and ne: "(c1, z1, f1) \<noteq> (c2, z2, f2)"
  shows "c1 + z1 \<le> c2 \<or> c2 + z2 \<le> c1"
proof -
  obtain xs ys where L: "L = xs @ (c1, z1, f1) # ys" and cx: "chain a xs c1"
    and cy: "chain (c1 + z1) ys e"
    using chain_split [OF ch m1] by blast
  from m2 ne L have "(c2, z2, f2) \<in> set xs \<or> (c2, z2, f2) \<in> set ys" by auto
  then show ?thesis using chain_bounds [OF cx, of c2 z2 f2] chain_bounds [OF cy, of c2 z2 f2] by auto
qed

lemma frame_rel:
  assumes p: "pre_rel s b E L fl U" and sub: "set cs \<subseteq> fst ` set L"
    and fr: "\<forall>a. a < 2 ^ 64 \<and> a \<notin> links_of cs \<and> a \<noteq> b + 16 \<longrightarrow> m' (wd a) = mem s (wd a)"
  shows "\<forall>blk \<in> set L - U. tagged m' blk" "m' (wd (b + 8)) = 17"
    "m' (wd (b + 48)) AND NOT 15 = 0" "m' (wd (E - 8)) = mem s (wd (E - 8))"
proof -
  have E: "E < 2 ^ 64" "b + 64 \<le> E" using pre_relD [OF p] by auto
  have same: "\<And>a. a + 8 \<le> E \<Longrightarrow> a \<in> tags_of L \<or> a = b + 8 \<or> a = b + 48 \<or> a = E - 8 \<Longrightarrow>
      m' (wd a) = mem s (wd a)"
  proof -
    fix a assume a: "a + 8 \<le> E" "a \<in> tags_of L \<or> a = b + 8 \<or> a = b + 48 \<or> a = E - 8"
    have "\<not> (a \<in> links_of cs \<or> a = b + 16)"
      using rel_fl_links [OF p sub, of a] a(2) by blast
    then show "m' (wd a) = mem s (wd a)" using fr a(1) E by auto
  qed
  show "\<forall>blk \<in> set L - U. tagged m' blk"
  proof
    fix blk assume bl: "blk \<in> set L - U"
    obtain c z f where blk: "blk = (c, z, f)" by (cases blk) auto
    have m: "(c, z, f) \<in> set L" using bl blk by simp
    have t: "tagged (mem s) blk" using p bl by (simp add: pre_rel_def)
    have "c - 8 + 8 \<le> E" "c + z - 16 + 8 \<le> E" using rel_blk [OF p m] by auto
    then have "m' (wd (c - 8)) = mem s (wd (c - 8))" "m' (wd (c + z - 16)) = mem s (wd (c + z - 16))"
      using same blk_tags_in [OF m] by auto
    then show "tagged m' blk" using t by (simp add: tagged_def blk)
  qed
  show "m' (wd (b + 8)) = 17" "m' (wd (b + 48)) AND NOT 15 = 0"
    using same [of "b + 8"] same [of "b + 48"] E pre_relD(10,11) [OF p] by auto
  show "m' (wd (E - 8)) = mem s (wd (E - 8))" using same [of "E - 8"] E by auto
qed

lemma step_remove:
  assumes p: "pre_rel s b E L fl U" and c: "fl = xs @ x # ys"
  shows "\<exists>m'. remove_from_free_list (wd x) s =
             Some (s\<lparr>mem := m', free_list_start := wd (hd (xs @ ys @ [b + 16]))\<rparr>) \<and>
           pre_rel (s\<lparr>mem := m', free_list_start := wd (hd (xs @ ys @ [b + 16]))\<rparr>) b E L (xs @ ys) U \<and>
           (\<forall>a. a < 2 ^ 64 \<and> a \<notin> links_of fl \<and> a \<noteq> b + 16 \<longrightarrow> m' (wd a) = mem s (wd a))"
proof -
  let ?n = "hd (ys @ [b + 16])"
  let ?m' = "if xs = [] then (mem s)(wd ?n := 0)
             else (mem s)(wd (last xs + 8) := wd ?n, wd ?n := wd (last xs))"
  let ?s' = "s\<lparr>mem := ?m', free_list_start := wd (hd (xs @ ys @ [b + 16]))\<rparr>"
  have r: "region s b E" and ok: "fl_ok b E fl" and l: "dll (mem s) 0 fl (b + 16)"
    and h: "free_list_start s = wd (hd (fl @ [b + 16]))" and E: "E < 2 ^ 64"
    and sub: "set fl \<subseteq> fst ` set L"
    using p pre_relD [OF p] by (auto simp: pre_rel_def)
  have rm: "remove_from_free_list (wd x) s = Some ?s'" and d: "dll ?m' 0 (xs @ ys) (b + 16)"
    using remove_dll [OF r ok l h c] by auto
  have nin: "?n \<in> set fl \<or> ?n = b + 16" by (cases ys) (auto simp: c)
  have okD: "\<forall>c \<in> set fl. c + 32 \<le> E" using ok by (auto simp: fl_ok_def)
  have fr: "\<forall>a. a < 2 ^ 64 \<and> a \<notin> links_of fl \<and> a \<noteq> b + 16 \<longrightarrow> ?m' (wd a) = mem s (wd a)"
  proof (intro allI impI)
    fix a assume a: "a < 2 ^ 64 \<and> a \<notin> links_of fl \<and> a \<noteq> b + 16"
    have n: "a \<noteq> ?n" "?n < 2 ^ 64" using a nin okD E pre_relD(5) [OF p] by (auto simp: links_of_def)
    show "?m' (wd a) = mem s (wd a)"
    proof (cases "xs = []")
      case True
      then show ?thesis using a n by (simp add: w_inj)
    next
      case False
      then have "last xs \<in> set fl" using c by simp
      then have "a \<noteq> last xs + 8" "last xs + 8 < 2 ^ 64" using a okD E by (auto simp: links_of_def)
      then show ?thesis using False a n by (simp add: w_inj)
    qed
  qed
  have ok': "fl_ok b E (xs @ ys)" using ok by (auto simp: fl_ok_def c)
  have sub': "set (xs @ ys) \<subseteq> fst ` set L" using sub c by auto
  have "pre_rel ?s' b E L (xs @ ys) U"
    using frame_rel(1-3) [OF p sub fr] r pre_relD(2) [OF p] ok' sub' d
    by (simp add: pre_rel_def)
  then show ?thesis using rm fr by blast
qed

lemma step_insert:
  assumes p: "pre_rel s b E L fl U" and x: "x \<in> fst ` set L" "x \<notin> set fl"
  shows "\<exists>m'. insert_in_free_list (wd x) s = Some (s\<lparr>mem := m', free_list_start := wd x\<rparr>) \<and>
           pre_rel (s\<lparr>mem := m', free_list_start := wd x\<rparr>) b E L (x # fl) U \<and>
           (\<forall>a. a < 2 ^ 64 \<and> a \<notin> links_of (x # fl) \<and> a \<noteq> b + 16 \<longrightarrow> m' (wd a) = mem s (wd a))"
proof -
  let ?n = "hd (fl @ [b + 16])"
  define m' where "m' = (mem s)(wd (x + 8) := wd ?n, wd ?n := wd x, wd x := 0)"
  let ?s' = "s\<lparr>mem := m', free_list_start := wd x\<rparr>"
  have r: "region s b E" and ok: "fl_ok b E fl" and l: "dll (mem s) 0 fl (b + 16)"
    and h: "free_list_start s = wd (hd (fl @ [b + 16]))" and E: "E < 2 ^ 64"
    and sub: "set fl \<subseteq> fst ` set L"
    using p pre_relD [OF p] by (auto simp: pre_rel_def)
  obtain z f where m: "(x, z, f) \<in> set L" using x(1) by auto
  have xb: "16 dvd x" "b + 64 \<le> x" "x + 32 \<le> E" using rel_blk [OF p m] by auto
  have ins: "insert_in_free_list (wd x) s = Some ?s'" and d: "dll m' 0 (x # fl) (b + 16)"
    using insert_dll [OF r ok l h xb x(2)] by (auto simp: m'_def)
  have nin: "?n \<in> set fl \<or> ?n = b + 16" by (cases fl) auto
  have okD: "\<forall>c \<in> set fl. c + 32 \<le> E" using ok by (auto simp: fl_ok_def)
  have fr: "\<forall>a. a < 2 ^ 64 \<and> a \<notin> links_of (x # fl) \<and> a \<noteq> b + 16 \<longrightarrow> m' (wd a) = mem s (wd a)"
  proof (intro allI impI)
    fix a assume a: "a < 2 ^ 64 \<and> a \<notin> links_of (x # fl) \<and> a \<noteq> b + 16"
    have n: "a \<noteq> ?n" "?n < 2 ^ 64" using a nin okD E pre_relD(5) [OF p] by (auto simp: links_of_def)
    have "a \<noteq> x" "a \<noteq> x + 8" "x + 8 < 2 ^ 64" "x < 2 ^ 64" using a xb E by auto
    then show "m' (wd a) = mem s (wd a)" using a n by (simp add: w_inj m'_def)
  qed
  have ok': "fl_ok b E (x # fl)" using ok xb x(2) by (auto simp: fl_ok_def)
  have sub': "set (x # fl) \<subseteq> fst ` set L" using sub x(1) by auto
  have "pre_rel ?s' b E L (x # fl) U"
    using frame_rel(1-3) [OF p sub' fr] r pre_relD(2) [OF p] ok' sub' d
    by (simp add: pre_rel_def)
  then show ?thesis using ins fr by blast
qed

lemma step_retag:
  assumes p: "pre_rel s b E L fl (insert (c, z, f) U)" and m: "(c, z, f) \<in> set L"
  defines "s1 \<equiv> s\<lparr>mem := (mem s)(wd (c - 8) := tagw z f)\<rparr>"
  defines "s2 \<equiv> s\<lparr>mem := (mem s)(wd (c - 8) := tagw z f, wd (c + z - 16) := tagw z f)\<rparr>"
  shows "PUT (HDRP (wd c)) (tagw z f) s = Some s1"
    and "FTRP s1 (wd c) = Some (wd (c + z - 16))"
    and "PUT (wd (c + z - 16)) (tagw z f) s1 = Some s2"
    and "pre_rel s2 b E L fl U"
    and "\<forall>a. a < 2 ^ 64 \<and> a \<noteq> c - 8 \<and> a \<noteq> c + z - 16 \<longrightarrow> mem s2 (wd a) = mem s (wd a)"
proof -
  have r: "region s b E" and ok: "fl_ok b E fl" and l: "dll (mem s) 0 fl (b + 16)"
    and h: "free_list_start s = wd (hd (fl @ [b + 16]))" and E: "E < 2 ^ 64"
    and sub: "set fl \<subseteq> fst ` set L" and ch: "chain (b + 64) L E" and b16: "16 dvd b"
    using p pre_relD [OF p] by (auto simp: pre_rel_def)
  have cb: "16 dvd c" "16 dvd z" "32 \<le> z" "b + 64 \<le> c" "c + z \<le> E" "c + z < 2 ^ 64"
    using rel_blk [OF p m] by auto
  have v1: "valid_addr s (wd (c - 8))" and v2: "valid_addr s (wd (c + z - 16))"
    using cb by (auto intro!: valid_nat [OF r] elim!: dvdE)
  have hp: "HDRP (wd c) = wd (c - 8)" using cb by (simp add: HDRP_nat)
  show "PUT (HDRP (wd c)) (tagw z f) s = Some s1" using v1 by (simp add: hp PUT_valid s1_def)
  have r1: "region s1 b E" using r by (simp add: s1_def)
  show "FTRP s1 (wd c) = Some (wd (c + z - 16))"
    using cb by (intro block_reads(3) [OF r1, of c z f]) (auto simp: s1_def)
  show "PUT (wd (c + z - 16)) (tagw z f) s1 = Some s2"
    using v2 by (simp add: PUT_valid s1_def s2_def)
  have l1: "c - 8 < 2 ^ 64" "c + z - 16 < 2 ^ 64" "c - 8 \<noteq> c + z - 16" using cb by auto
  show fr: "\<forall>a. a < 2 ^ 64 \<and> a \<noteq> c - 8 \<and> a \<noteq> c + z - 16 \<longrightarrow> mem s2 (wd a) = mem s (wd a)"
    using l1 by (simp add: s2_def w_inj)
  have tg: "c - 8 \<in> tags_of L" "c + z - 16 \<in> tags_of L" using blk_tags_in [OF m] by auto
  have nl: "\<And>a. a \<in> links_of fl \<or> a = b + 16 \<Longrightarrow> a \<noteq> c - 8 \<and> a \<noteq> c + z - 16 \<and> a < 2 ^ 64"
    using rel_fl_links(1,4) [OF p sub] tg E by fastforce
  have d: "dll (mem s2) 0 fl (b + 16)"
  proof -
    have "\<forall>x \<in> links_of fl. mem s2 (wd x) = mem s (wd x)" using nl fr by blast
    then show ?thesis using dll_cong [of fl "mem s2" "mem s"] l by simp
  qed
  have t: "\<forall>blk \<in> set L - U. tagged (mem s2) blk"
  proof
    fix blk assume bl: "blk \<in> set L - U"
    show "tagged (mem s2) blk"
    proof (cases "blk = (c, z, f)")
      case True
      then show ?thesis using l1 by (simp add: tagged_def s2_def w_inj)
    next
      case False
      obtain c' z' f' where blk: "blk = (c', z', f')" by (cases blk) auto
      have m': "(c', z', f') \<in> set L" using bl blk by simp
      have t0: "tagged (mem s) blk" using p bl False by (simp add: pre_rel_def)
      have cb': "32 \<le> z'" "b + 64 \<le> c'" "c' + z' \<le> E" using rel_blk [OF p m'] by auto
      have "c + z \<le> c' \<or> c' + z' \<le> c" using chain_disjoint [OF ch m m'] False blk by auto
      then have "c' - 8 \<noteq> c - 8 \<and> c' - 8 \<noteq> c + z - 16 \<and> c' + z' - 16 \<noteq> c - 8 \<and> c' + z' - 16 \<noteq> c + z - 16
          \<and> c' - 8 < 2 ^ 64 \<and> c' + z' - 16 < 2 ^ 64"
        using cb cb' E by linarith
      then have "mem s2 (wd (c' - 8)) = mem s (wd (c' - 8))"
        "mem s2 (wd (c' + z' - 16)) = mem s (wd (c' + z' - 16))"
        using fr [rule_format, of "c' - 8"] fr [rule_format, of "c' + z' - 16"] by blast+
      then show ?thesis using t0 by (simp add: tagged_def blk)
    qed
  qed
  have sp: "mem s2 (wd (b + 8)) = 17" "mem s2 (wd (b + 48)) AND NOT 15 = 0"
  proof -
    have "b + 8 \<noteq> c - 8 \<and> b + 8 \<noteq> c + z - 16 \<and> b + 48 \<noteq> c - 8 \<and> b + 48 \<noteq> c + z - 16 \<and>
          b + 48 < 2 ^ 64 \<and> b + 8 < 2 ^ 64"
      using cb E by linarith
    then have "mem s2 (wd (b + 8)) = mem s (wd (b + 8))" "mem s2 (wd (b + 48)) = mem s (wd (b + 48))"
      using fr [rule_format, of "b + 8"] fr [rule_format, of "b + 48"] by blast+
    then show "mem s2 (wd (b + 8)) = 17" "mem s2 (wd (b + 48)) AND NOT 15 = 0"
      using pre_relD(10,11) [OF p] by auto
  qed
  have "region s2 b E" "free_list_start s2 = free_list_start s" using r by (simp_all add: s2_def)
  then show "pre_rel s2 b E L fl U"
    using ch t sp ok sub d h by (simp add: pre_rel_def)
qed

lemma rel_reads:
  assumes p: "pre_rel s b E L fl U" and m: "(c, z, f) \<in> set L" "(c, z, f) \<notin> U"
  shows "GET_SIZE s (HDRP (wd c)) = Some (wd z)"
    and "GET_ALLOC s (HDRP (wd c)) = Some (if f then 1 else 0)"
    and "FTRP s (wd c) = Some (wd (c + z - 16))"
    and "NEXT_BLK s (wd c) = Some (wd (c + z))"
    and "GET_ALLOC s (wd (c + z - 16)) = Some (if f then 1 else 0)"
    and "PREV_BLK s (wd (c + z)) = Some (wd c)"
proof -
  have r: "region s b E" using pre_relD [OF p] by simp
  have cb: "16 dvd c" "16 dvd z" "32 \<le> z" "b + 64 \<le> c" "c + z \<le> E" "c + z < 2 ^ 64"
    using rel_blk [OF p m(1)] by auto
  have "tagged (mem s) (c, z, f)" using p m by (simp add: pre_rel_def)
  then have t: "mem s (wd (c - 8)) = tagw z f" "mem s (wd (c + z - 16)) = tagw z f"
    by (simp_all add: tagged_def)
  show "GET_SIZE s (HDRP (wd c)) = Some (wd z)"
    and "GET_ALLOC s (HDRP (wd c)) = Some (if f then 1 else 0)"
    and "FTRP s (wd c) = Some (wd (c + z - 16))"
    and "NEXT_BLK s (wd c) = Some (wd (c + z))"
    using block_reads [OF r, of c z f] cb t by auto
  have v: "valid_addr s (wd (c + z - 16))"
    using cb by (auto intro!: valid_nat [OF r] elim!: dvdE)
  show "GET_ALLOC s (wd (c + z - 16)) = Some (if f then 1 else 0)"
    using GET_ALLOC_tag [OF v t(2)] cb by simp
  have "GET_SIZE s (wd (c + z - 16)) = Some (wd z)" using GET_SIZE_tag [OF v t(2)] cb by simp
  moreover have "wd (c + z) - DSIZE = wd (c + z - 16)" using cb by (simp add: DSIZE_def WSIZE_def w_sub_num)
  moreover have "wd (c + z) - wd z = wd c" by (simp add: w_sub)
  ultimately show "PREV_BLK s (wd (c + z)) = Some (wd c)" by (simp add: PREV_BLK_def)
qed

lemma rel_gap:
  assumes p: "pre_rel s b E L fl U"
  shows "PREV_BLK s (wd (b + 64)) = Some (wd (b + 64))"
proof -
  have r: "region s b E" and E: "b + 64 \<le> E" and b16: "16 dvd b" using pre_relD [OF p] by auto
  have v: "valid_addr s (wd (b + 48))" using E b16 by (auto intro!: valid_nat [OF r] elim!: dvdE)
  have "wd (b + 64) - 16 = wd (b + 64 - 16)" by (rule w_sub_num) simp
  moreover have "b + 64 - 16 = b + 48" by simp
  ultimately have "wd (b + 64) - DSIZE = wd (b + 48)" by (simp only: DSIZE_def WSIZE_def) simp
  then show ?thesis using v pre_relD(11) [OF p]
    by (simp add: PREV_BLK_def GET_SIZE_def GET_valid) (simp add: DSIZE_def WSIZE_def)
qed

lemma chain_aligned: "chain a L e \<Longrightarrow> 16 dvd a \<Longrightarrow> 16 dvd e"
proof (induction L arbitrary: a)
  case Nil
  then show ?case by auto
next
  case (Cons x L)
  obtain c z f where x: "x = (c, z, f)" by (cases x) auto
  have "chain (a + z) L e" "16 dvd (a + z)" using Cons.prems by (auto simp: x)
  then show ?case by (rule Cons.IH)
qed

lemma rel_epilogue:
  assumes p: "pre_rel s b E L fl U" and e: "mem s (wd (E - 8)) = 1"
  shows "GET_ALLOC s (HDRP (wd E)) = Some 1" "GET_SIZE s (HDRP (wd E)) = Some 0"
proof -
  have r: "region s b E" and E: "b + 64 \<le> E" "E < 2 ^ 64" and b16: "16 dvd b" using pre_relD [OF p] by auto
  have ch: "chain (b + 64) L E" using pre_relD [OF p] by simp
  have E16: "16 dvd E" using chain_aligned [OF ch] b16 by simp
  have t: "mem s (wd (E - 8)) = tagw 0 True" using e by (simp add: tagw_simps)
  show "GET_ALLOC s (HDRP (wd E)) = Some 1"
    using block_reads(2) [OF r E16 _ _ t] E by simp
  show "GET_SIZE s (HDRP (wd E)) = Some 0"
    using block_reads(1) [OF r E16 _ _ t] E by (simp add: wd_def)
qed

lemma free_starts_simps [simp]:
  "free_starts [] = {}"
  "free_starts ((c, z, f) # L) = (if f then {} else {c}) \<union> free_starts L"
  "free_starts (xs @ ys) = free_starts xs \<union> free_starts ys"
  by (auto simp: free_starts_def)

lemma free_starts_sub: "free_starts L \<subseteq> fst ` set L"
  by (force simp: free_starts_def)

lemma chain_starts:
  "chain a L e \<Longrightarrow> x \<in> fst ` set L \<Longrightarrow> a \<le> x \<and> x < e"
  using chain_bounds [of a L e x] by fastforce

lemma rechain:
  assumes "pre_rel s b E L fl U" "chain (b + 64) L' E" "set L' - U' \<subseteq> set L - U"
    "set fl \<subseteq> fst ` set L'"
  shows "pre_rel s b E L' fl U'"
  using assms by (auto simp: pre_rel_def)

lemma coalesce_unfold:
  assumes "NEXT_BLK s bp = Some nb" "GET_ALLOC s (HDRP nb) = Some na" "PREV_BLK s bp = Some pb"
    "FTRP s pb = Some pf" "GET_ALLOC s pf = Some pa" "GET_SIZE s (HDRP bp) = Some sz"
  shows "coalesce bp s = do {
     (bp', s') \<leftarrow>
       (if (pa \<noteq> 0 \<or> pb = bp) \<and> na = 0 then do {
          nsz \<leftarrow> GET_SIZE s (HDRP nb);
          s1 \<leftarrow> remove_from_free_list nb s;
          s2 \<leftarrow> PUT (HDRP bp) (PACK (sz + nsz) 0) s1;
          f \<leftarrow> FTRP s2 bp;
          s3 \<leftarrow> PUT f (PACK (sz + nsz) 0) s2;
          Some (bp, s3)
        }
        else if \<not> (pa \<noteq> 0 \<or> pb = bp) \<and> na \<noteq> 0 then do {
          psz \<leftarrow> GET_SIZE s (HDRP pb);
          s1 \<leftarrow> remove_from_free_list pb s;
          s2 \<leftarrow> PUT (HDRP pb) (PACK (sz + psz) 0) s1;
          f \<leftarrow> FTRP s2 pb;
          s3 \<leftarrow> PUT f (PACK (sz + psz) 0) s2;
          Some (pb, s3)
        }
        else if \<not> (pa \<noteq> 0 \<or> pb = bp) \<and> na = 0 then do {
          psz \<leftarrow> GET_SIZE s (HDRP pb);
          nsz \<leftarrow> GET_SIZE s (HDRP nb);
          s1 \<leftarrow> remove_from_free_list pb s;
          nb2 \<leftarrow> NEXT_BLK s1 bp;
          s2 \<leftarrow> remove_from_free_list nb2 s1;
          bp1 \<leftarrow> PREV_BLK s2 bp;
          s3 \<leftarrow> PUT (HDRP bp1) (PACK (sz + (psz + nsz)) 0) s2;
          f \<leftarrow> FTRP s3 bp1;
          s4 \<leftarrow> PUT f (PACK (sz + (psz + nsz)) 0) s3;
          Some (bp1, s4)
        }
        else Some (bp, s));
     s'' \<leftarrow> insert_in_free_list bp' s';
     Some (bp', s'')
   }"
  by (cases "pa \<noteq> 0 \<or> pb = bp"; cases "na = 0") (simp_all add: coalesce_def assms)

text \<open>Writing the tags of a block and pushing it onto the free list.\<close>

lemma tag_insert:
  assumes p: "pre_rel s b E L fl {(c, z, False)}" and m: "(c, z, False) \<in> set L"
    and n: "c \<notin> set fl" and e: "mem s (wd (E - 8)) = 1"
  shows "\<exists>m'. do {
             s2 \<leftarrow> PUT (HDRP (wd c)) (tagw z False) s;
             f \<leftarrow> FTRP s2 (wd c);
             s3 \<leftarrow> PUT f (tagw z False) s2;
             s4 \<leftarrow> insert_in_free_list (wd c) s3;
             Some (wd c, s4)
           } = Some (wd c, s\<lparr>mem := m', free_list_start := wd c\<rparr>) \<and>
           pre_rel (s\<lparr>mem := m', free_list_start := wd c\<rparr>) b E L (c # fl) {} \<and> m' (wd (E - 8)) = 1 \<and>
           (\<forall>a. a < 2 ^ 64 \<and> a \<notin> links_of (c # fl) \<and> a \<noteq> b + 16 \<and> a \<noteq> c - 8 \<and> a \<noteq> c + z - 16 \<longrightarrow>
              m' (wd a) = mem s (wd a))"
proof -
  define s1 where "s1 = s\<lparr>mem := (mem s)(wd (c - 8) := tagw z False)\<rparr>"
  define s2 where "s2 = s\<lparr>mem := (mem s)(wd (c - 8) := tagw z False, wd (c + z - 16) := tagw z False)\<rparr>"
  have p': "pre_rel s b E L fl (insert (c, z, False) {})" using p by simp
  have st: "PUT (HDRP (wd c)) (tagw z False) s = Some s1" "FTRP s1 (wd c) = Some (wd (c + z - 16))"
    "PUT (wd (c + z - 16)) (tagw z False) s1 = Some s2" "pre_rel s2 b E L fl {}"
    and fr2: "\<forall>a. a < 2 ^ 64 \<and> a \<noteq> c - 8 \<and> a \<noteq> c + z - 16 \<longrightarrow> mem s2 (wd a) = mem s (wd a)"
    using step_retag [OF p' m] by (simp_all add: s1_def s2_def)
  have cin: "c \<in> fst ` set L" using m by force
  obtain m' where ins: "insert_in_free_list (wd c) s2 = Some (s2\<lparr>mem := m', free_list_start := wd c\<rparr>)"
    and p3: "pre_rel (s2\<lparr>mem := m', free_list_start := wd c\<rparr>) b E L (c # fl) {}"
    and fr3: "\<forall>a. a < 2 ^ 64 \<and> a \<notin> links_of (c # fl) \<and> a \<noteq> b + 16 \<longrightarrow> m' (wd a) = mem s2 (wd a)"
    using step_insert [OF st(4) cin n] by blast
  have eq: "s2\<lparr>mem := m', free_list_start := wd c\<rparr> = s\<lparr>mem := m', free_list_start := wd c\<rparr>"
    by (simp add: s2_def)
  have cb: "32 \<le> z" "b + 64 \<le> c" "c + z \<le> E" and E: "E < 2 ^ 64" "b + 64 \<le> E"
    using rel_blk [OF p m] pre_relD [OF p] by auto
  have sub: "set (c # fl) \<subseteq> fst ` set L" using p3 by (simp add: pre_rel_def)
  have "E - 8 \<notin> links_of (c # fl) \<and> E - 8 \<noteq> b + 16"
    using rel_fl_links(5) [OF p sub, of "E - 8"] by blast
  moreover have "E - 8 \<noteq> c - 8 \<and> E - 8 \<noteq> c + z - 16 \<and> E - 8 < 2 ^ 64" using cb E by linarith
  ultimately have e': "m' (wd (E - 8)) = 1"
    using fr3 [rule_format, of "E - 8"] fr2 [rule_format, of "E - 8"] e by simp
  have fr: "\<forall>a. a < 2 ^ 64 \<and> a \<notin> links_of (c # fl) \<and> a \<noteq> b + 16 \<and> a \<noteq> c - 8 \<and> a \<noteq> c + z - 16 \<longrightarrow>
              m' (wd a) = mem s (wd a)"
    using fr2 fr3 by simp
  show ?thesis
    using st(1-3) ins p3 e' fr by (intro exI [of _ m']) (simp add: eq)
qed

lemma allocd_simps [simp]:
  "allocd [] = {}"
  "allocd ((c, z, f) # L) = (if f then {(c, z, f)} else {}) \<union> allocd L"
  "allocd (xs @ ys) = allocd xs \<union> allocd ys"
  by (auto simp: allocd_def)

lemma coal_postI:
  assumes "r = Some (wd c', s\<lparr>mem := m', free_list_start := wd c'\<rparr>)"
    "pre_rel (s\<lparr>mem := m', free_list_start := wd c'\<rparr>) b E L' fl' {}"
    "m' (wd (E - 8)) = 1" "set fl' = free_starts L'"
    "(c', z', False) \<in> set L'" "c' \<le> c" "c + z \<le> c' + z'" "allocd L' = allocd L"
    "\<forall>a. a < 2 ^ 64 \<and> a \<notin> links_of (c # fl) \<and> a \<noteq> b + 16 \<and> a \<noteq> c' - 8 \<and> a \<noteq> c' + z' - 16 \<longrightarrow>
           m' (wd a) = mem s (wd a)"
  shows "coal_post s b E L fl c z r"
  unfolding coal_post_def heap_rel_def
  using assms by (intro exI [of _ c'] exI [of _ z'] exI [of _ L'] exI [of _ fl'] exI [of _ m']) simp

lemma chain_snoc:
  "chain a (xs @ [(p, zp, fp)]) c = (chain a xs p \<and> 16 dvd zp \<and> 32 \<le> zp \<and> p + zp = c)"
  by (auto simp: chain_append)

lemma links_of_mono: "set xs \<subseteq> set ys \<Longrightarrow> links_of xs \<subseteq> links_of ys"
  by (auto simp: links_of_def)

text \<open>The neighbours that \<^verbatim>\<open>coalesce\<close> looks at.\<close>

lemma coalesce_next_read:
  assumes p: "pre_rel s b E L fl {}" and e: "mem s (wd (E - 8)) = 1"
    and L: "L = xs @ (c, z, f) # ys"
  shows "GET_ALLOC s (HDRP (wd (c + z))) = Some (if ys = [] \<or> snd (snd (hd ys)) then 1 else 0)"
proof -
  have ch: "chain (b + 64) L E" using pre_relD [OF p] by simp
  then have cy: "chain (c + z) ys E" by (auto simp: L chain_append)
  show ?thesis
  proof (cases ys)
    case Nil
    then have "c + z = E" using cy by simp
    then show ?thesis using rel_epilogue(1) [OF p e] Nil by simp
  next
    case (Cons y ys')
    obtain n zn fn where y: "y = (n, zn, fn)" by (cases y) auto
    have n: "n = c + z" using cy Cons y by simp
    have "(n, zn, fn) \<in> set L" by (simp add: L Cons y)
    then show ?thesis using rel_reads(2) [OF p, of n zn fn] Cons y n by simp
  qed
qed

lemma coalesce_prev_read:
  assumes p: "pre_rel s b E L fl {}" and L: "L = xs @ (c, z, f) # ys"
  shows "\<exists>pb pf pa. PREV_BLK s (wd c) = Some pb \<and> FTRP s pb = Some pf \<and> GET_ALLOC s pf = Some pa \<and>
           ((pa \<noteq> 0 \<or> pb = wd c) = (xs = [] \<or> snd (snd (last xs)))) \<and>
           (xs \<noteq> [] \<longrightarrow> pb = wd (fst (last xs)))"
proof -
  have ch: "chain (b + 64) L E" using pre_relD [OF p] by simp
  then have cx: "chain (b + 64) xs c" by (auto simp: L chain_append)
  have m: "(c, z, f) \<in> set L" by (simp add: L)
  show ?thesis
  proof (cases xs rule: rev_cases)
    case Nil
    then have c: "c = b + 64" using cx by simp
    show ?thesis
      using rel_gap [OF p] rel_reads(3,5) [OF p m] Nil c by simp
  next
    case (snoc xs' x)
    obtain q zq fq where x: "x = (q, zq, fq)" by (cases x) auto
    have q: "q + zq = c" "32 \<le> zq" using cx snoc x by (auto simp: chain_snoc)
    have mq: "(q, zq, fq) \<in> set L" by (simp add: L snoc x)
    have E: "E < 2 ^ 64" using pre_relD [OF p] by simp
    have "c \<le> E" using rel_blk [OF p m] by simp
    then have ne: "wd q \<noteq> wd c" using q E by (simp add: w_inj)
    show ?thesis
      using rel_reads(3,5,6) [OF p mq] q ne snoc x by auto
  qed
qed

lemma remove1_split:
  assumes "distinct fl" "fl = fx @ x # fy"
  shows "set (fx @ fy) = set fl - {x}" "x \<notin> set (fx @ fy)" "distinct (fx @ fy)"
  using assms by auto

lemma coalesce_rel:
  assumes h: "heap_rel s b E L fl {c}" and m: "(c, z, False) \<in> set L"
  shows "coal_post s b E L fl c z (coalesce (wd c) s)"
proof -
  have p: "pre_rel s b E L fl {}" and e: "mem s (wd (E - 8)) = 1"
    and sf: "set fl = free_starts L - {c}"
    using h by (auto simp: heap_rel_def)
  have ch: "chain (b + 64) L E" and El: "E < 2 ^ 64" and ok: "fl_ok b E fl"
    using pre_relD [OF p] by auto
  have dist: "distinct fl" using ok by (simp add: fl_ok_def)
  obtain xs ys where L: "L = xs @ (c, z, False) # ys" and cx: "chain (b + 64) xs c"
    and cy: "chain (c + z) ys E"
    using chain_split [OF ch m] by blast
  have cn: "c \<notin> set fl" using sf by simp
  have cin: "c \<in> fst ` set L" using m by force
  have sub: "set fl \<subseteq> fst ` set L" using p by (simp add: pre_rel_def)
  have cb: "32 \<le> z" "b + 64 \<le> c" "c + z \<le> E" "16 dvd z" using rel_blk [OF p m] by auto
  have r1: "NEXT_BLK s (wd c) = Some (wd (c + z))" and r6: "GET_SIZE s (HDRP (wd c)) = Some (wd z)"
    using rel_reads [OF p m] by simp_all
  let ?NA = "ys = [] \<or> snd (snd (hd ys))"
  let ?PA = "xs = [] \<or> snd (snd (last xs))"
  have r2: "GET_ALLOC s (HDRP (wd (c + z))) = Some (if ?NA then 1 else 0)"
    using coalesce_next_read [OF p e L] .
  obtain pb pf pa where r3: "PREV_BLK s (wd c) = Some pb" and r4: "FTRP s pb = Some pf"
    and r5: "GET_ALLOC s pf = Some pa" and pa_eq: "(pa \<noteq> 0 \<or> pb = wd c) = ?PA"
    and pbv: "xs \<noteq> [] \<longrightarrow> pb = wd (fst (last xs))"
    using coalesce_prev_read [OF p L] by blast
  note unf = coalesce_unfold [OF r1 r2 r3 r4 r5 r6]
  have sx: "\<And>x. x \<in> fst ` set xs \<Longrightarrow> x < c" using chain_starts [OF cx] by blast
  have sy: "\<And>x. x \<in> fst ` set ys \<Longrightarrow> c + z \<le> x" using chain_starts [OF cy] by blast
  have fsx: "c \<notin> free_starts xs" using sx free_starts_sub [of xs] by blast
  have fsy: "c \<notin> free_starts ys" using sy free_starts_sub [of ys] cb by fastforce
  show ?thesis
  proof (cases ?PA)
    case PA: True
    show ?thesis
    proof (cases ?NA)
      case NA: True
      have c1: "\<not> (pa = 0 \<and> pb \<noteq> wd c)" using pa_eq PA by auto
      have co: "coalesce (wd c) s = do { s'' \<leftarrow> insert_in_free_list (wd c) s; Some (wd c, s'') }"
        using unf c1 NA by simp
      obtain m' where ins: "insert_in_free_list (wd c) s = Some (s\<lparr>mem := m', free_list_start := wd c\<rparr>)"
        and p3: "pre_rel (s\<lparr>mem := m', free_list_start := wd c\<rparr>) b E L (c # fl) {}"
        and fr: "\<forall>a. a < 2 ^ 64 \<and> a \<notin> links_of (c # fl) \<and> a \<noteq> b + 16 \<longrightarrow> m' (wd a) = mem s (wd a)"
        using step_insert [OF p cin cn] by blast
      have sub': "set (c # fl) \<subseteq> fst ` set L" using sub cin by simp
      have e': "m' (wd (E - 8)) = 1" using frame_rel(4) [OF p sub' fr] e by simp
      show ?thesis
      proof (rule coal_postI [where c' = c and z' = z and L' = L and fl' = "c # fl" and m' = m'])
        show "coalesce (wd c) s = Some (wd c, s\<lparr>mem := m', free_list_start := wd c\<rparr>)"
          by (simp add: co ins)
        show "set (c # fl) = free_starts L" using sf by (auto simp: L)
        show "\<forall>a. a < 2 ^ 64 \<and> a \<notin> links_of (c # fl) \<and> a \<noteq> b + 16 \<and> a \<noteq> c - 8 \<and> a \<noteq> c + z - 16 \<longrightarrow>
           m' (wd a) = mem s (wd a)" using fr by simp
      qed (use p3 e' m in simp_all)
    next
      case NA: False
      then obtain n zn ys' where ys: "ys = (n, zn, False) # ys'"
        by (cases ys) (auto simp: neq_Nil_conv)
      have n: "n = c + z" and zn: "32 \<le> zn" "16 dvd zn" and cy': "chain (n + zn) ys' E"
        using cy ys by auto
      have mn: "(n, zn, False) \<in> set L" by (simp add: L ys)
      have nfl: "n \<in> set fl" using sf n cb by (simp add: L ys)
      then obtain fx fy where fl: "fl = fx @ n # fy" by (meson split_list)
      have rn: "GET_SIZE s (HDRP (wd (c + z))) = Some (wd zn)"
        using rel_reads(1) [OF p mn] n by simp
      obtain m1 where rm: "remove_from_free_list (wd n) s =
             Some (s\<lparr>mem := m1, free_list_start := wd (hd (fx @ fy @ [b + 16]))\<rparr>)"
        and p1: "pre_rel (s\<lparr>mem := m1, free_list_start := wd (hd (fx @ fy @ [b + 16]))\<rparr>) b E L (fx @ fy) {}"
        and fr1: "\<forall>a. a < 2 ^ 64 \<and> a \<notin> links_of fl \<and> a \<noteq> b + 16 \<longrightarrow> m1 (wd a) = mem s (wd a)"
        using step_remove [OF p fl] by blast
      let ?s1 = "s\<lparr>mem := m1, free_list_start := wd (hd (fx @ fy @ [b + 16]))\<rparr>"
      let ?L' = "xs @ (c, z + zn, False) # ys'"
      have e1: "mem ?s1 (wd (E - 8)) = 1" using frame_rel(4) [OF p sub fr1] e by simp
      have fs1: "set (fx @ fy) = set fl - {n}" "c \<notin> set (fx @ fy)"
        using remove1_split [OF dist fl] cn by auto
      have sy': "\<And>x. x \<in> fst ` set ys' \<Longrightarrow> n + zn \<le> x" using chain_starts [OF cy'] by blast
      have nn: "n \<notin> free_starts xs" "n \<notin> free_starts ys'"
        using sx sy' free_starts_sub [of xs] free_starts_sub [of ys'] n zn by fastforce+
      have "chain (c + (z + zn)) ys' E" using cy' by (simp add: n add.assoc)
      then have ch': "chain (b + 64) ?L' E" using cx cb zn by (simp add: chain_append)
      have fsL: "free_starts L = free_starts xs \<union> {c, n} \<union> free_starts ys'"
        by (simp add: L ys) blast
      have fsL': "free_starts ?L' = free_starts xs \<union> {c} \<union> free_starts ys'" by simp
      have rest: "set (fx @ fy) \<subseteq> free_starts xs \<union> free_starts ys'"
        using fs1(1) sf fsL by blast
      have p1': "pre_rel ?s1 b E ?L' (fx @ fy) {(c, z + zn, False)}"
      proof (rule rechain [OF p1 ch'])
        show "set ?L' - {(c, z + zn, False)} \<subseteq> set L - {}" by (auto simp: L ys)
        have "free_starts xs \<union> free_starts ys' \<subseteq> fst ` set ?L'"
          using free_starts_sub [of xs] free_starts_sub [of ys'] by (simp add: image_Un) blast
        then show "set (fx @ fy) \<subseteq> fst ` set ?L'" using rest by blast
      qed
      have m': "(c, z + zn, False) \<in> set ?L'" by simp
      obtain m2 where ti: "do {
             s2 \<leftarrow> PUT (HDRP (wd c)) (tagw (z + zn) False) ?s1;
             f \<leftarrow> FTRP s2 (wd c);
             s3 \<leftarrow> PUT f (tagw (z + zn) False) s2;
             s4 \<leftarrow> insert_in_free_list (wd c) s3;
             Some (wd c, s4)
           } = Some (wd c, ?s1\<lparr>mem := m2, free_list_start := wd c\<rparr>)"
        and p2: "pre_rel (?s1\<lparr>mem := m2, free_list_start := wd c\<rparr>) b E ?L' (c # (fx @ fy)) {}"
        and e2: "m2 (wd (E - 8)) = 1"
        and fr2: "\<forall>a. a < 2 ^ 64 \<and> a \<notin> links_of (c # (fx @ fy)) \<and> a \<noteq> b + 16 \<and> a \<noteq> c - 8 \<and>
              a \<noteq> c + (z + zn) - 16 \<longrightarrow> m2 (wd a) = mem ?s1 (wd a)"
        using tag_insert [OF p1' m' fs1(2) e1] by blast
      have eq: "?s1\<lparr>mem := m2, free_list_start := wd c\<rparr> = s\<lparr>mem := m2, free_list_start := wd c\<rparr>" by simp
      have lk: "links_of (c # (fx @ fy)) \<subseteq> links_of (c # fl)"
        by (rule links_of_mono) (use fs1 in auto)
      show ?thesis
      proof (rule coal_postI [where c' = c and z' = "z + zn" and L' = ?L' and fl' = "c # (fx @ fy)" and m' = m2])
        have "coalesce (wd c) s = do {
             s2 \<leftarrow> PUT (HDRP (wd c)) (tagw (z + zn) False) ?s1;
             f \<leftarrow> FTRP s2 (wd c);
             s3 \<leftarrow> PUT f (tagw (z + zn) False) s2;
             s4 \<leftarrow> insert_in_free_list (wd c) s3;
             Some (wd c, s4)
           }"
          using unf pa_eq PA NA rn rm [unfolded n] by (simp add: w_add tagw_simps)
        then show "coalesce (wd c) s = Some (wd c, s\<lparr>mem := m2, free_list_start := wd c\<rparr>)"
          using ti by (simp only: eq)
        show "pre_rel (s\<lparr>mem := m2, free_list_start := wd c\<rparr>) b E ?L' (c # (fx @ fy)) {}"
          using p2 by (simp only: eq)
        have "insert c (set (fx @ fy)) = free_starts xs \<union> {c} \<union> free_starts ys'"
          using fs1(1) sf fsL nn fsx fsy n cb by blast
        then show "set (c # (fx @ fy)) = free_starts ?L'" using fsL' by simp
        show "\<forall>a. a < 2 ^ 64 \<and> a \<notin> links_of (c # fl) \<and> a \<noteq> b + 16 \<and> a \<noteq> c - 8 \<and> a \<noteq> c + (z + zn) - 16 \<longrightarrow>
           m2 (wd a) = mem s (wd a)"
        proof (intro allI impI)
          fix a assume a: "a < 2 ^ 64 \<and> a \<notin> links_of (c # fl) \<and> a \<noteq> b + 16 \<and> a \<noteq> c - 8 \<and> a \<noteq> c + (z + zn) - 16"
          then have "a \<notin> links_of (c # (fx @ fy))" "a \<notin> links_of fl" using lk by auto
          then show "m2 (wd a) = mem s (wd a)"
            using fr2 [rule_format, of a] fr1 [rule_format, of a] a by simp
        qed
        show "allocd ?L' = allocd L" by (simp add: L ys)
      qed (use e2 in simp_all)
    qed
  next
    case PA: False
    then obtain xs' q zq where xs: "xs = xs' @ [(q, zq, False)]"
      by (cases xs rule: rev_cases) auto
    have q: "q + zq = c" and zq: "32 \<le> zq" "16 dvd zq" and cx': "chain (b + 64) xs' q"
      using cx xs by (auto simp: chain_snoc)
    have pbq: "pb = wd q" using pbv xs by simp
    have mq: "(q, zq, False) \<in> set L" by (simp add: L xs)
    have qfl: "q \<in> set fl" using sf q zq by (simp add: L xs)
    then obtain fx fy where fl: "fl = fx @ q # fy" by (meson split_list)
    have rq: "GET_SIZE s (HDRP (wd q)) = Some (wd zq)"
      using rel_reads(1) [OF p mq] by simp
    obtain m1 where rm: "remove_from_free_list (wd q) s =
           Some (s\<lparr>mem := m1, free_list_start := wd (hd (fx @ fy @ [b + 16]))\<rparr>)"
      and p1: "pre_rel (s\<lparr>mem := m1, free_list_start := wd (hd (fx @ fy @ [b + 16]))\<rparr>) b E L (fx @ fy) {}"
      and fr1: "\<forall>a. a < 2 ^ 64 \<and> a \<notin> links_of fl \<and> a \<noteq> b + 16 \<longrightarrow> m1 (wd a) = mem s (wd a)"
      using step_remove [OF p fl] by blast
    let ?s1 = "s\<lparr>mem := m1, free_list_start := wd (hd (fx @ fy @ [b + 16]))\<rparr>"
    have e1: "mem ?s1 (wd (E - 8)) = 1" using frame_rel(4) [OF p sub fr1] e by simp
    have fs1: "set (fx @ fy) = set fl - {q}" "q \<notin> set (fx @ fy)" "c \<notin> set (fx @ fy)" "distinct (fx @ fy)"
      using remove1_split [OF dist fl] cn by auto
    have sx': "\<And>x. x \<in> fst ` set xs' \<Longrightarrow> x < q" using chain_starts [OF cx'] by blast
    have qq: "q \<notin> free_starts xs'" "q \<notin> free_starts ys" "c \<notin> free_starts xs'"
      using sx' sy free_starts_sub [of xs'] free_starts_sub [of ys] q zq cb by fastforce+
    show ?thesis
    proof (cases ?NA)
      case NA: True
      let ?L' = "xs' @ (q, z + zq, False) # ys"
      have "q + (z + zq) = c + z" using q by simp
      then have "chain (q + (z + zq)) ys E" using cy by (simp only:)
      then have ch': "chain (b + 64) ?L' E" using cx' cb zq by (simp add: chain_append)
      have fsL: "free_starts L = free_starts xs' \<union> {q, c} \<union> free_starts ys"
        by (simp add: L xs) blast
      have fsL': "free_starts ?L' = free_starts xs' \<union> {q} \<union> free_starts ys" by simp
      have rest: "set (fx @ fy) \<subseteq> free_starts xs' \<union> free_starts ys"
        using fs1(1) sf fsL by blast
      have p1': "pre_rel ?s1 b E ?L' (fx @ fy) {(q, z + zq, False)}"
      proof (rule rechain [OF p1 ch'])
        show "set ?L' - {(q, z + zq, False)} \<subseteq> set L - {}" by (auto simp: L xs)
        have "free_starts xs' \<union> free_starts ys \<subseteq> fst ` set ?L'"
          using free_starts_sub [of xs'] free_starts_sub [of ys] by (simp add: image_Un) blast
        then show "set (fx @ fy) \<subseteq> fst ` set ?L'" using rest by blast
      qed
      have m': "(q, z + zq, False) \<in> set ?L'" by simp
      obtain m2 where ti: "do {
             s2 \<leftarrow> PUT (HDRP (wd q)) (tagw (z + zq) False) ?s1;
             f \<leftarrow> FTRP s2 (wd q);
             s3 \<leftarrow> PUT f (tagw (z + zq) False) s2;
             s4 \<leftarrow> insert_in_free_list (wd q) s3;
             Some (wd q, s4)
           } = Some (wd q, ?s1\<lparr>mem := m2, free_list_start := wd q\<rparr>)"
        and p2: "pre_rel (?s1\<lparr>mem := m2, free_list_start := wd q\<rparr>) b E ?L' (q # (fx @ fy)) {}"
        and e2: "m2 (wd (E - 8)) = 1"
        and fr2: "\<forall>a. a < 2 ^ 64 \<and> a \<notin> links_of (q # (fx @ fy)) \<and> a \<noteq> b + 16 \<and> a \<noteq> q - 8 \<and>
              a \<noteq> q + (z + zq) - 16 \<longrightarrow> m2 (wd a) = mem ?s1 (wd a)"
        using tag_insert [OF p1' m' fs1(2) e1] by blast
      have eq: "?s1\<lparr>mem := m2, free_list_start := wd q\<rparr> = s\<lparr>mem := m2, free_list_start := wd q\<rparr>" by simp
      have lk: "links_of (q # (fx @ fy)) \<subseteq> links_of (c # fl)"
        by (rule links_of_mono) (use fs1 qfl in auto)
      show ?thesis
      proof (rule coal_postI [where c' = q and z' = "z + zq" and L' = ?L' and fl' = "q # (fx @ fy)" and m' = m2])
        have "coalesce (wd c) s = do {
             s2 \<leftarrow> PUT (HDRP (wd q)) (tagw (z + zq) False) ?s1;
             f \<leftarrow> FTRP s2 (wd q);
             s3 \<leftarrow> PUT f (tagw (z + zq) False) s2;
             s4 \<leftarrow> insert_in_free_list (wd q) s3;
             Some (wd q, s4)
           }"
          using unf pa_eq PA NA rq rm pbq by (simp add: w_add tagw_simps)
        then show "coalesce (wd c) s = Some (wd q, s\<lparr>mem := m2, free_list_start := wd q\<rparr>)"
          using ti by (simp only: eq)
        show "pre_rel (s\<lparr>mem := m2, free_list_start := wd q\<rparr>) b E ?L' (q # (fx @ fy)) {}"
          using p2 by (simp only: eq)
        have "insert q (set (fx @ fy)) = free_starts xs' \<union> {q} \<union> free_starts ys"
          using fs1(1) sf fsL qq fsy qfl by blast
        then show "set (q # (fx @ fy)) = free_starts ?L'" using fsL' by simp
        show "\<forall>a. a < 2 ^ 64 \<and> a \<notin> links_of (c # fl) \<and> a \<noteq> b + 16 \<and> a \<noteq> q - 8 \<and> a \<noteq> q + (z + zq) - 16 \<longrightarrow>
           m2 (wd a) = mem s (wd a)"
        proof (intro allI impI)
          fix a assume a: "a < 2 ^ 64 \<and> a \<notin> links_of (c # fl) \<and> a \<noteq> b + 16 \<and> a \<noteq> q - 8 \<and> a \<noteq> q + (z + zq) - 16"
          then have "a \<notin> links_of (q # (fx @ fy))" "a \<notin> links_of fl" using lk by auto
          then show "m2 (wd a) = mem s (wd a)"
            using fr2 [rule_format, of a] fr1 [rule_format, of a] a by simp
        qed
        show "allocd ?L' = allocd L" by (simp add: L xs)
        show "q \<le> c" "c + z \<le> q + (z + zq)" using q by auto
      qed (use e2 in simp_all)
    next
      case NA: False
      then obtain n zn ys' where ys: "ys = (n, zn, False) # ys'"
        by (cases ys) (auto simp: neq_Nil_conv)
      have n: "n = c + z" and zn: "32 \<le> zn" "16 dvd zn" and cy': "chain (n + zn) ys' E"
        using cy ys by auto
      have mn: "(n, zn, False) \<in> set L" by (simp add: L ys)
      have nq: "n \<noteq> q" using n q zq cb by simp
      have fsL: "free_starts L = free_starts xs' \<union> {q, c, n} \<union> free_starts ys'"
        by (simp add: L xs ys) blast
      have nc: "n \<noteq> c" using n cb by simp
      have nfl1: "n \<in> set (fx @ fy)" using sf fs1(1) nq nc fsL by blast
      then obtain gx gy where fl1: "fx @ fy = gx @ n # gy" by (meson split_list)
      have rn: "GET_SIZE s (HDRP (wd (c + z))) = Some (wd zn)"
        using rel_reads(1) [OF p mn] n by simp
      have mc1: "(c, z, False) \<in> set L" "(c, z, False) \<notin> {}" using m by auto
      have rn1: "NEXT_BLK ?s1 (wd c) = Some (wd n)"
        using rel_reads(4) [OF p1 mc1] n by simp
      obtain m2 where rm2: "remove_from_free_list (wd n) ?s1 =
             Some (?s1\<lparr>mem := m2, free_list_start := wd (hd (gx @ gy @ [b + 16]))\<rparr>)"
        and p2: "pre_rel (?s1\<lparr>mem := m2, free_list_start := wd (hd (gx @ gy @ [b + 16]))\<rparr>) b E L (gx @ gy) {}"
        and fr2: "\<forall>a. a < 2 ^ 64 \<and> a \<notin> links_of (fx @ fy) \<and> a \<noteq> b + 16 \<longrightarrow> m2 (wd a) = mem ?s1 (wd a)"
        using step_remove [OF p1 fl1] by blast
      let ?s2 = "s\<lparr>mem := m2, free_list_start := wd (hd (gx @ gy @ [b + 16]))\<rparr>"
      have eq2: "?s1\<lparr>mem := m2, free_list_start := wd (hd (gx @ gy @ [b + 16]))\<rparr> = ?s2" by simp
      have p2': "pre_rel ?s2 b E L (gx @ gy) {}" using p2 by (simp only: eq2)
      have sub1: "set (fx @ fy) \<subseteq> fst ` set L" using p1 by (simp add: pre_rel_def)
      have e2: "mem ?s2 (wd (E - 8)) = 1" using frame_rel(4) [OF p1 sub1 fr2] e1 by simp
      have fs2: "set (gx @ gy) = set (fx @ fy) - {n}" "n \<notin> set (gx @ gy)"
        using remove1_split [OF fs1(4) fl1] by auto
      have rp2: "PREV_BLK ?s2 (wd c) = Some (wd q)"
        using rel_reads(6) [OF p2', of q zq False] mq q by simp
      have sy': "\<And>x. x \<in> fst ` set ys' \<Longrightarrow> n + zn \<le> x" using chain_starts [OF cy'] by blast
      have nn: "n \<notin> free_starts xs'" "n \<notin> free_starts ys'" "q \<notin> free_starts ys'" "c \<notin> free_starts ys'"
        using sx' sy' free_starts_sub [of xs'] free_starts_sub [of ys'] n zn q zq cb by fastforce+
      let ?L' = "xs' @ (q, z + (zq + zn), False) # ys'"
      have "q + (z + (zq + zn)) = n + zn" using q n by simp
      then have "chain (q + (z + (zq + zn))) ys' E" using cy' by (simp only:)
      then have ch': "chain (b + 64) ?L' E" using cx' cb zq zn by (simp add: chain_append)
      have fsL': "free_starts ?L' = free_starts xs' \<union> {q} \<union> free_starts ys'" by simp
      have sg: "set (gx @ gy) = free_starts xs' \<union> {q, c, n} \<union> free_starts ys' - {c} - {q} - {n}"
        by (simp only: fs2(1) fs1(1) sf fsL)
      have rest: "set (gx @ gy) \<subseteq> free_starts xs' \<union> free_starts ys'"
        unfolding sg by blast
      have p2'': "pre_rel ?s2 b E ?L' (gx @ gy) {(q, z + (zq + zn), False)}"
      proof (rule rechain [OF p2' ch'])
        show "set ?L' - {(q, z + (zq + zn), False)} \<subseteq> set L - {}" by (auto simp: L xs ys)
        have "free_starts xs' \<union> free_starts ys' \<subseteq> fst ` set ?L'"
          using free_starts_sub [of xs'] free_starts_sub [of ys'] by (simp add: image_Un) blast
        then show "set (gx @ gy) \<subseteq> fst ` set ?L'" using rest by blast
      qed
      have m': "(q, z + (zq + zn), False) \<in> set ?L'" by simp
      have qn2: "q \<notin> set (gx @ gy)" using fs2 fs1 by auto
      obtain m3 where ti: "do {
             s2 \<leftarrow> PUT (HDRP (wd q)) (tagw (z + (zq + zn)) False) ?s2;
             f \<leftarrow> FTRP s2 (wd q);
             s3 \<leftarrow> PUT f (tagw (z + (zq + zn)) False) s2;
             s4 \<leftarrow> insert_in_free_list (wd q) s3;
             Some (wd q, s4)
           } = Some (wd q, ?s2\<lparr>mem := m3, free_list_start := wd q\<rparr>)"
        and p3: "pre_rel (?s2\<lparr>mem := m3, free_list_start := wd q\<rparr>) b E ?L' (q # (gx @ gy)) {}"
        and e3: "m3 (wd (E - 8)) = 1"
        and fr3: "\<forall>a. a < 2 ^ 64 \<and> a \<notin> links_of (q # (gx @ gy)) \<and> a \<noteq> b + 16 \<and> a \<noteq> q - 8 \<and>
              a \<noteq> q + (z + (zq + zn)) - 16 \<longrightarrow> m3 (wd a) = mem ?s2 (wd a)"
        using tag_insert [OF p2'' m' qn2 e2] by blast
      have eq: "?s2\<lparr>mem := m3, free_list_start := wd q\<rparr> = s\<lparr>mem := m3, free_list_start := wd q\<rparr>" by simp
      have s1: "set (fx @ fy) \<subseteq> set fl" unfolding fs1(1) by blast
      have s2: "set (gx @ gy) \<subseteq> set (fx @ fy)" unfolding fs2(1) by blast
      have s3: "set (q # (gx @ gy)) \<subseteq> set (c # fl)" "set (fx @ fy) \<subseteq> set (c # fl)"
        using s1 s2 qfl by (simp_all add: subset_insertI2) blast
      have lk: "links_of (q # (gx @ gy)) \<subseteq> links_of (c # fl)" "links_of (fx @ fy) \<subseteq> links_of (c # fl)"
        by (rule links_of_mono [OF s3(1)], rule links_of_mono [OF s3(2)])
      show ?thesis
      proof (rule coal_postI [where c' = q and z' = "z + (zq + zn)" and L' = ?L' and fl' = "q # (gx @ gy)" and m' = m3])
        have "coalesce (wd c) s = do {
             s2 \<leftarrow> PUT (HDRP (wd q)) (tagw (z + (zq + zn)) False) ?s2;
             f \<leftarrow> FTRP s2 (wd q);
             s3 \<leftarrow> PUT f (tagw (z + (zq + zn)) False) s2;
             s4 \<leftarrow> insert_in_free_list (wd q) s3;
             Some (wd q, s4)
           }"
          using unf pa_eq PA NA rq rn rm pbq rn1 rm2 rp2 by (simp add: w_add tagw_simps)
        then show "coalesce (wd c) s = Some (wd q, s\<lparr>mem := m3, free_list_start := wd q\<rparr>)"
          using ti by (simp only: eq)
        show "pre_rel (s\<lparr>mem := m3, free_list_start := wd q\<rparr>) b E ?L' (q # (gx @ gy)) {}"
          using p3 by (simp only: eq)
        have "insert q (set (gx @ gy)) = free_starts xs' \<union> {q} \<union> free_starts ys'"
          unfolding sg using qq nn by blast
        then show "set (q # (gx @ gy)) = free_starts ?L'" using fsL' by simp
        show "\<forall>a. a < 2 ^ 64 \<and> a \<notin> links_of (c # fl) \<and> a \<noteq> b + 16 \<and> a \<noteq> q - 8 \<and> a \<noteq> q + (z + (zq + zn)) - 16 \<longrightarrow>
           m3 (wd a) = mem s (wd a)"
        proof (intro allI impI)
          fix a assume a: "a < 2 ^ 64 \<and> a \<notin> links_of (c # fl) \<and> a \<noteq> b + 16 \<and> a \<noteq> q - 8 \<and> a \<noteq> q + (z + (zq + zn)) - 16"
          then have "a \<notin> links_of (q # (gx @ gy))" "a \<notin> links_of fl" "a \<notin> links_of (fx @ fy)" using lk by auto
          then show "m3 (wd a) = mem s (wd a)"
            using fr3 [rule_format, of a] fr2 [rule_format, of a] fr1 [rule_format, of a] a by simp
        qed
        show "allocd ?L' = allocd L" by (simp add: L xs ys)
        show "q \<le> c" "c + z \<le> q + (z + (zq + zn))" using q by auto
      qed (use e3 in simp_all)
    qed
  qed
qed

lemma place_rel:
  assumes h: "heap_rel s b E L fl {}" and m: "(c, z, False) \<in> set L"
    and a: "16 dvd a" "32 \<le> a" "a \<le> z"
  shows "\<exists>s' L' fl' z'. place (wd c) (wd a) s = Some s' \<and> heap_rel s' b E L' fl' {} \<and>
           (c, z', True) \<in> set L' \<and> a \<le> z' \<and> allocd L' = insert (c, z', True) (allocd L)"
proof -
  have p: "pre_rel s b E L fl {}" and e: "mem s (wd (E - 8)) = 1"
    and sf: "set fl = free_starts L"
    using h by (auto simp: heap_rel_def)
  have ch: "chain (b + 64) L E" and El: "E < 2 ^ 64" and ok: "fl_ok b E fl"
    using pre_relD [OF p] by auto
  have dist: "distinct fl" using ok by (simp add: fl_ok_def)
  obtain xs ys where L: "L = xs @ (c, z, False) # ys" and cx: "chain (b + 64) xs c"
    and cy: "chain (c + z) ys E"
    using chain_split [OF ch m] by blast
  have sub: "set fl \<subseteq> fst ` set L" using p by (simp add: pre_rel_def)
  have cb: "32 \<le> z" "b + 64 \<le> c" "c + z \<le> E" "16 dvd z" "16 dvd c" using rel_blk [OF p m] by auto
  have r6: "GET_SIZE s (HDRP (wd c)) = Some (wd z)"
    using rel_reads(1) [OF p m] by simp
  have cfl: "c \<in> set fl" using sf m by (auto simp: free_starts_def)
  then obtain fx fy where fl: "fl = fx @ c # fy" by (meson split_list)
  have fs1: "set (fx @ fy) = set fl - {c}" "c \<notin> set (fx @ fy)"
    using remove1_split [OF dist fl] by auto
  have d: "wd z - wd a = wd (z - a)" using a by (simp add: w_sub)
  have "(wd 32 \<le> wd (z - a)) = (32 \<le> z - a)" using El cb by (intro w_le) auto
  then have cond: "(4 * WSIZE \<le> wd (z - a)) = (32 \<le> z - a)" by (simp add: WSIZE_def wd_def)
  have sx: "\<And>x. x \<in> fst ` set xs \<Longrightarrow> x < c" using chain_starts [OF cx] by blast
  have sy: "\<And>x. x \<in> fst ` set ys \<Longrightarrow> c + z \<le> x" using chain_starts [OF cy] by blast
  have lx: "\<And>x. x \<in> free_starts xs \<Longrightarrow> x < c" using sx free_starts_sub [of xs] by blast
  have ly: "\<And>x. x \<in> free_starts ys \<Longrightarrow> c + z \<le> x" using sy free_starts_sub [of ys] by blast
  have fsx: "c \<notin> free_starts xs" "c + a \<notin> free_starts xs" using lx [of c] lx [of "c + a"] by auto
  have fsy: "c \<notin> free_starts ys" using ly [of c] cb by auto
  have fsL: "free_starts L = free_starts xs \<union> {c} \<union> free_starts ys" by (simp add: L)
  have sg: "set (fx @ fy) = free_starts xs \<union> {c} \<union> free_starts ys - {c}"
    by (simp only: fs1(1) sf fsL)
  have rest: "set (fx @ fy) = free_starts xs \<union> free_starts ys"
    unfolding sg using fsx fsy by blast
  show ?thesis
  proof (cases "32 \<le> z - a")
    case False
    let ?L' = "xs @ (c, z, True) # ys"
    have ch': "chain (b + 64) ?L' E" using cx cy cb by (simp add: chain_append)
    have m': "(c, z, True) \<in> set ?L'" by simp
    have p0: "pre_rel s b E ?L' fl (insert (c, z, True) {})"
    proof (rule rechain [OF p ch'])
      show "set ?L' - insert (c, z, True) {} \<subseteq> set L - {}" by (auto simp: L)
      show "set fl \<subseteq> fst ` set ?L'" using sub by (simp add: L)
    qed
    define s1 where "s1 = s\<lparr>mem := (mem s)(wd (c - 8) := tagw z True)\<rparr>"
    define s2 where "s2 = s\<lparr>mem := (mem s)(wd (c - 8) := tagw z True, wd (c + z - 16) := tagw z True)\<rparr>"
    have st: "PUT (HDRP (wd c)) (tagw z True) s = Some s1" "FTRP s1 (wd c) = Some (wd (c + z - 16))"
      "PUT (wd (c + z - 16)) (tagw z True) s1 = Some s2" "pre_rel s2 b E ?L' fl {}"
      and fr2: "\<forall>a. a < 2 ^ 64 \<and> a \<noteq> c - 8 \<and> a \<noteq> c + z - 16 \<longrightarrow> mem s2 (wd a) = mem s (wd a)"
      using step_retag [OF p0 m'] by (simp_all add: s1_def s2_def)
    obtain m3 where rm: "remove_from_free_list (wd c) s2 =
           Some (s2\<lparr>mem := m3, free_list_start := wd (hd (fx @ fy @ [b + 16]))\<rparr>)"
      and p3: "pre_rel (s2\<lparr>mem := m3, free_list_start := wd (hd (fx @ fy @ [b + 16]))\<rparr>) b E ?L' (fx @ fy) {}"
      and fr3: "\<forall>a. a < 2 ^ 64 \<and> a \<notin> links_of fl \<and> a \<noteq> b + 16 \<longrightarrow> m3 (wd a) = mem s2 (wd a)"
      using step_remove [OF st(4) fl] by blast
    define s3 where "s3 = s2\<lparr>mem := m3, free_list_start := wd (hd (fx @ fy @ [b + 16]))\<rparr>"
    have sub2: "set fl \<subseteq> fst ` set ?L'" using sub by (simp add: L)
    have "E - 8 \<noteq> c - 8 \<and> E - 8 \<noteq> c + z - 16 \<and> E - 8 < 2 ^ 64" using cb El by linarith
    then have "mem s2 (wd (E - 8)) = 1" using fr2 [rule_format, of "E - 8"] e by simp
    then have e3: "mem s3 (wd (E - 8)) = 1"
      using frame_rel(4) [OF st(4) sub2 fr3] by (simp add: s3_def)
    have "set (fx @ fy) = free_starts ?L'" using rest by simp
    then have h3: "heap_rel s3 b E ?L' (fx @ fy) {}"
      using p3 e3 by (simp add: heap_rel_def s3_def)
    have pl: "place (wd c) (wd a) s = Some s3"
      using False by (simp add: place_def r6 d cond tagw_simps st rm s3_def)
    have "allocd ?L' = insert (c, z, True) (allocd L)" by (auto simp: L)
    then show ?thesis using pl h3 m' a by blast
  next
    case True
    let ?L1 = "xs @ (c, a, True) # (c + a, z - a, False) # ys"
    have za: "16 dvd (z - a)" "c + a + (z - a) = c + z" using a cb by auto
    have ch1: "chain (b + 64) ?L1 E" using cx cy cb a True za by (simp add: chain_append)
    have m1: "(c, a, True) \<in> set ?L1" and m2: "(c + a, z - a, False) \<in> set ?L1" by simp_all
    have sub1: "set fl \<subseteq> fst ` set ?L1" using sub by (auto simp: L)
    have p0: "pre_rel s b E ?L1 fl (insert (c, a, True) {(c + a, z - a, False)})"
    proof (rule rechain [OF p ch1])
      show "set ?L1 - insert (c, a, True) {(c + a, z - a, False)} \<subseteq> set L - {}" by (auto simp: L)
      show "set fl \<subseteq> fst ` set ?L1" by (rule sub1)
    qed
    define s1 where "s1 = s\<lparr>mem := (mem s)(wd (c - 8) := tagw a True)\<rparr>"
    define s2 where "s2 = s\<lparr>mem := (mem s)(wd (c - 8) := tagw a True, wd (c + a - 16) := tagw a True)\<rparr>"
    have st: "PUT (HDRP (wd c)) (tagw a True) s = Some s1" "FTRP s1 (wd c) = Some (wd (c + a - 16))"
      "PUT (wd (c + a - 16)) (tagw a True) s1 = Some s2" "pre_rel s2 b E ?L1 fl {(c + a, z - a, False)}"
      and fr2: "\<forall>x. x < 2 ^ 64 \<and> x \<noteq> c - 8 \<and> x \<noteq> c + a - 16 \<longrightarrow> mem s2 (wd x) = mem s (wd x)"
      using step_retag [OF p0 m1] by (simp_all add: s1_def s2_def)
    obtain m3 where rm: "remove_from_free_list (wd c) s2 =
           Some (s2\<lparr>mem := m3, free_list_start := wd (hd (fx @ fy @ [b + 16]))\<rparr>)"
      and p3: "pre_rel (s2\<lparr>mem := m3, free_list_start := wd (hd (fx @ fy @ [b + 16]))\<rparr>) b E ?L1 (fx @ fy)
                 {(c + a, z - a, False)}"
      and fr3: "\<forall>x. x < 2 ^ 64 \<and> x \<notin> links_of fl \<and> x \<noteq> b + 16 \<longrightarrow> m3 (wd x) = mem s2 (wd x)"
      using step_remove [OF st(4) fl] by blast
    define s3 where "s3 = s2\<lparr>mem := m3, free_list_start := wd (hd (fx @ fy @ [b + 16]))\<rparr>"
    have p3': "pre_rel s3 b E ?L1 (fx @ fy) (insert (c + a, z - a, False) {})"
      using p3 by (simp add: s3_def)
    have "E - 8 \<noteq> c - 8 \<and> E - 8 \<noteq> c + a - 16 \<and> E - 8 < 2 ^ 64" using cb El a by linarith
    then have "mem s2 (wd (E - 8)) = 1" using fr2 [rule_format, of "E - 8"] e by simp
    then have e3: "mem s3 (wd (E - 8)) = 1"
      using frame_rel(4) [OF st(4) sub1 fr3] by (simp add: s3_def)
    have nb: "NEXT_BLK s3 (wd c) = Some (wd (c + a))"
      using rel_reads(4) [OF p3' m1] by simp
    define s4 where "s4 = s3\<lparr>mem := (mem s3)(wd (c + a - 8) := tagw (z - a) False)\<rparr>"
    define s5 where "s5 = s3\<lparr>mem := (mem s3)(wd (c + a - 8) := tagw (z - a) False,
         wd (c + z - 16) := tagw (z - a) False)\<rparr>"
    have st2: "PUT (HDRP (wd (c + a))) (tagw (z - a) False) s3 = Some s4"
      "FTRP s4 (wd (c + a)) = Some (wd (c + z - 16))"
      "PUT (wd (c + z - 16)) (tagw (z - a) False) s4 = Some s5" "pre_rel s5 b E ?L1 (fx @ fy) {}"
      and fr5: "\<forall>x. x < 2 ^ 64 \<and> x \<noteq> c + a - 8 \<and> x \<noteq> c + z - 16 \<longrightarrow> mem s5 (wd x) = mem s3 (wd x)"
      using step_retag [OF p3' m2, unfolded za(2)] by (simp_all add: s4_def s5_def)
    have "E - 8 \<noteq> c + a - 8 \<and> E - 8 \<noteq> c + z - 16 \<and> E - 8 < 2 ^ 64" using cb El a True by linarith
    then have e5: "mem s5 (wd (E - 8)) = 1" using fr5 [rule_format, of "E - 8"] e3 by simp
    have fsy2: "c + a \<notin> free_starts ys" using ly [of "c + a"] cb a True by auto
    have "set (fx @ fy) = free_starts ?L1 - {c + a}" using rest fsx fsy2 by auto
    then have h5: "heap_rel s5 b E ?L1 (fx @ fy) {c + a}"
      using st2(4) e5 by (simp add: heap_rel_def)
    have "coal_post s5 b E ?L1 (fx @ fy) (c + a) (z - a) (coalesce (wd (c + a)) s5)"
      by (rule coalesce_rel [OF h5 m2])
    then obtain c' z' L' fl' m' where
      co: "coalesce (wd (c + a)) s5 = Some (wd c', s5\<lparr>mem := m', free_list_start := wd c'\<rparr>)"
      and h6: "heap_rel (s5\<lparr>mem := m', free_list_start := wd c'\<rparr>) b E L' fl' {}"
      and al: "allocd L' = allocd ?L1"
      unfolding coal_post_def by blast
    have pl: "place (wd c) (wd a) s = Some (s5\<lparr>mem := m', free_list_start := wd c'\<rparr>)"
      using True by (simp add: place_def r6 d cond tagw_simps st rm s3_def [symmetric] nb st2 co)
    have al': "allocd L' = insert (c, a, True) (allocd L)" using al by (auto simp: L)
    then have "(c, a, True) \<in> set L'" by (auto simp: allocd_def)
    then show ?thesis using pl h6 al' by blast
  qed
qed

lemma region_brk:
  assumes "region s b E" "E' < 2 ^ 64"
  shows "region (s\<lparr>mem_brk := wd E'\<rparr>) b E'"
  using assms by (simp add: region_def w_unat)

lemma pre_rel_grow:
  assumes p: "pre_rel s b E L fl U" and z: "16 dvd z" "32 \<le> z" "E + z < 2 ^ 64"
  shows "pre_rel (s\<lparr>mem_brk := wd (E + z)\<rparr>) b (E + z) (L @ [(E, z, False)]) fl (insert (E, z, False) U)"
proof -
  have r: "region (s\<lparr>mem_brk := wd (E + z)\<rparr>) b (E + z)"
    using region_brk [OF pre_relD(1) [OF p] z(3)] .
  have ch: "chain (b + 64) (L @ [(E, z, False)]) (E + z)"
    using pre_relD(2) [OF p] z by (simp add: chain_append)
  have ok: "fl_ok b (E + z) fl" using pre_relD(7) [OF p] by (auto simp: fl_ok_def)
  have t: "\<forall>blk \<in> set (L @ [(E, z, False)]) - insert (E, z, False) U. tagged (mem s) blk"
    using p by (auto simp: pre_rel_def)
  have sub: "set fl \<subseteq> fst ` set (L @ [(E, z, False)])" using p by (auto simp: pre_rel_def)
  show ?thesis
    unfolding pre_rel_def using r ch ok t sub pre_relD(8-11) [OF p] by simp
qed

lemma pre_rel_epi:
  assumes p: "pre_rel s b E L fl U"
  shows "pre_rel (s\<lparr>mem := (mem s)(wd (E - 8) := v)\<rparr>) b E L fl U"
proof -
  define m' where "m' = (mem s)(wd (E - 8) := v)"
  have E: "E < 2 ^ 64" "b + 64 \<le> E" using pre_relD [OF p] by auto
  have sub: "set fl \<subseteq> fst ` set L" using p by (simp add: pre_rel_def)
  have same: "\<And>a. a + 8 \<le> E \<Longrightarrow> a \<noteq> E - 8 \<Longrightarrow> m' (wd a) = mem s (wd a)"
    using E by (simp add: m'_def w_inj)
  have t: "\<forall>blk \<in> set L - U. tagged m' blk"
  proof
    fix blk assume bl: "blk \<in> set L - U"
    obtain c z f where blk: "blk = (c, z, f)" by (cases blk) auto
    have m: "(c, z, f) \<in> set L" using bl blk by simp
    have t0: "tagged (mem s) blk" using p bl by (simp add: pre_rel_def)
    have "c - 8 + 8 \<le> E \<and> c + z - 16 + 8 \<le> E \<and> c - 8 \<noteq> E - 8 \<and> c + z - 16 \<noteq> E - 8"
      using rel_blk [OF p m] by auto
    then have "m' (wd (c - 8)) = mem s (wd (c - 8))" "m' (wd (c + z - 16)) = mem s (wd (c + z - 16))"
      using same by blast+
    then show "tagged m' blk" using t0 by (simp add: tagged_def blk)
  qed
  have sp: "m' (wd (b + 8)) = 17" "m' (wd (b + 48)) AND NOT 15 = 0"
    using same [of "b + 8"] same [of "b + 48"] E pre_relD(10,11) [OF p] by auto
  have "\<forall>x \<in> links_of fl. m' (wd x) = mem s (wd x)"
  proof
    fix x assume x: "x \<in> links_of fl"
    have "x + 16 \<le> E" "x \<noteq> E - 8" using rel_fl_links(4,5) [OF p sub, of x] x by auto
    then show "m' (wd x) = mem s (wd x)" using same [of x] by simp
  qed
  then have d: "dll m' 0 fl (b + 16)"
    using dll_cong [of fl m' "mem s"] pre_relD(8) [OF p] by simp
  show ?thesis
    unfolding pre_rel_def m'_def [symmetric]
    using pre_relD(1,2,7,9) [OF p] t sp sub d by simp
qed

lemma extend_heap_unfold:
  assumes "4 \<le> w" "w < 2 ^ 60 - 1"
  defines "sz \<equiv> 8 * (if odd w then w + 1 else w)"
  shows "extend_heap (wd w) s =
     (case mem_sbrk (wd sz) s of (bp, s1) \<Rightarrow>
        if (ucast bp :: cint) = - 1 then Some (NULL, s1)
        else do {
           s2 \<leftarrow> PUT (HDRP bp) (tagw sz False) s1;
           f \<leftarrow> FTRP s2 bp;
           s3 \<leftarrow> PUT f (tagw sz False) s2;
           nb \<leftarrow> NEXT_BLK s3 bp;
           s4 \<leftarrow> PUT (HDRP nb) 1 s3;
           coalesce bp s4
         })"
proof -
  have u: "unat (wd w) = w" using assms by (simp add: w_unat)
  have "unat (wd w mod 2) = w mod 2" using u by (simp add: unat_mod)
  moreover have "(wd w mod 2 = 0) = (unat (wd w mod 2) = 0)" by (simp add: unat_eq_zero)
  ultimately have o: "(wd w mod 2 = 0) = even w" by (simp add: even_iff_mod_2_eq_zero)
  have m1: "(wd w + 1) * WSIZE = wd (8 * (w + 1))" "wd w * WSIZE = wd (8 * w)"
    by (simp_all add: WSIZE_def wd_def)
  have l: "\<And>k. 4 \<le> k \<Longrightarrow> k < 2 ^ 60 \<Longrightarrow> \<not> wd (8 * k) < 16"
  proof -
    fix k :: nat assume k: "4 \<le> k" "k < 2 ^ 60"
    have "(wd (8 * k) < wd 16) = (8 * k < 16)" using k by (intro w_less) auto
    then show "\<not> wd (8 * k) < 16" using k by (simp add: wd_def)
  qed
  have p: "PACK 0 1 = 1" by (simp add: PACK_def)
  show ?thesis
  proof (cases "even w")
    case True
    then have "wd w mod 2 = 0" using o by simp
    then show ?thesis using True assms(1,2) l [of w]
      by (simp add: extend_heap_def sz_def m1 Let_def tagw_simps p split: prod.splits)
  next
    case False
    then have "wd w mod 2 \<noteq> 0" using o by simp
    then show ?thesis using False assms(1,2) l [of "w + 1"]
      by (simp add: extend_heap_def sz_def m1 Let_def tagw_simps p split: prod.splits)
  qed
qed

lemma ucast_not_m1:
  assumes "16 dvd E" "E < 2 ^ 64"
  shows "(ucast (wd E) :: cint) \<noteq> - 1"
proof
  assume "(ucast (wd E) :: cint) = - 1"
  then have "bit (ucast (wd E) :: cint) 0" by simp
  then have "bit (wd E) 0" by (simp add: bit_ucast_iff)
  then show False using low_bits_zero [OF assms, of 0] by simp
qed

lemma sbrk_ok:
  assumes r: "unat (mem_brk s) = E" and z: "z < 2 ^ 63"
  shows "mem_sbrk (wd z) s =
           (if E + z \<le> unat (mem_max_addr s) then (wd E, s\<lparr>mem_brk := wd (E + z)\<rparr>) else (- 1, s))"
proof -
  have u: "unat (wd z) = z" using z by (simp add: w_unat)
  have "sint (wd z) = signed_take_bit 63 (int z)" using u by (simp add: sint_uint uint_nat)
  also have "\<dots> = int z" using z by (intro signed_take_bit_int_eq_self) auto
  finally have s: "\<not> sint (wd z) < 0" by simp
  have b: "mem_brk s = wd E" using r by auto
  have ub: "uint (mem_brk s) = int E" and uz: "uint (wd z) = int z"
    using r u by (simp_all add: uint_nat)
  have um: "uint (mem_max_addr s) = int (unat (mem_max_addr s))" by (rule uint_nat)
  have c: "(uint (mem_max_addr s) < uint (mem_brk s) + uint (wd z)) = (\<not> E + z \<le> unat (mem_max_addr s))"
    unfolding ub uz um by arith
  show ?thesis unfolding mem_sbrk_def using s c by (simp add: b w_add)
qed

lemma extend_heap_rel:
  assumes p: "pre_rel s b E L fl {}" and sf: "set fl = free_starts L" and w: "4 \<le> w" "w < 2 ^ 60 - 1"
  defines "sz \<equiv> 8 * (if odd w then w + 1 else w)"
  shows "E + sz \<le> unat (mem_max_addr s) \<Longrightarrow>
           \<exists>s' L' fl' c z. extend_heap (wd w) s = Some (wd c, s') \<and> wd c \<noteq> NULL \<and>
              heap_rel s' b (E + sz) L' fl' {} \<and> (c, z, False) \<in> set L' \<and> sz \<le> z \<and>
              allocd L' = allocd L \<and> mem s' (wd (E - 8)) = tagw sz False \<and>
              mem_max_addr s' = mem_max_addr s"
    and "\<not> E + sz \<le> unat (mem_max_addr s) \<Longrightarrow> extend_heap (wd w) s = Some (NULL, s)"
proof -
  have r: "region s b E" and ch: "chain (b + 64) L E" and El: "E < 2 ^ 64" and ok: "fl_ok b E fl"
    and b16: "16 dvd b" and bE: "b + 64 \<le> E"
    using pre_relD [OF p] by auto
  have E16: "16 dvd E" using chain_aligned [OF ch] b16 by simp
  have zs: "16 dvd sz" "32 \<le> sz" "sz < 2 ^ 63" using w by (auto simp: sz_def elim!: oddE evenE)
  note unf = extend_heap_unfold [OF w, of s, folded sz_def]
  have "unat (mem_brk s) = E" using r by (simp add: region_def)
  note sb = sbrk_ok [OF this zs(3)]
  have um: "(ucast (- 1 :: 64 word) :: cint) = - 1"
    by (rule bit_word_eqI) (simp add: bit_ucast_iff)
  show "\<not> E + sz \<le> unat (mem_max_addr s) \<Longrightarrow> extend_heap (wd w) s = Some (NULL, s)"
    by (simp add: unf sb um)
  assume fit: "E + sz \<le> unat (mem_max_addr s)"
  have "unat (mem_max_addr s) < 2 ^ 64" using unsigned_less [of "mem_max_addr s", where ?'a = nat] by simp
  then have E': "E + sz < 2 ^ 64" using fit by simp
  define s1 where "s1 = s\<lparr>mem_brk := wd (E + sz)\<rparr>"
  let ?L1 = "L @ [(E, sz, False)]"
  have m1: "(E, sz, False) \<in> set ?L1" by simp
  have p1: "pre_rel s1 b (E + sz) ?L1 fl (insert (E, sz, False) {})"
    unfolding s1_def by (rule pre_rel_grow [OF p zs(1,2) E'])
  define s2 where "s2 = s1\<lparr>mem := (mem s1)(wd (E - 8) := tagw sz False)\<rparr>"
  define s3 where "s3 = s1\<lparr>mem := (mem s1)(wd (E - 8) := tagw sz False, wd (E + sz - 16) := tagw sz False)\<rparr>"
  have st: "PUT (HDRP (wd E)) (tagw sz False) s1 = Some s2" "FTRP s2 (wd E) = Some (wd (E + sz - 16))"
    "PUT (wd (E + sz - 16)) (tagw sz False) s2 = Some s3" "pre_rel s3 b (E + sz) ?L1 fl {}"
    using step_retag [OF p1 m1] by (simp_all add: s2_def s3_def)
  have nb: "NEXT_BLK s3 (wd E) = Some (wd (E + sz))"
    using rel_reads(4) [OF st(4) m1] by simp
  have hp: "HDRP (wd (E + sz)) = wd (E + sz - 8)" using zs by (simp add: HDRP_nat)
  have "8 dvd E + sz - 8" using E16 zs(1,2) by (auto elim!: dvdE)
  then have v: "valid_addr s3 (wd (E + sz - 8))"
    using bE zs by (intro valid_nat [OF pre_relD(1) [OF st(4)]]) auto
  define s4 where "s4 = s3\<lparr>mem := (mem s3)(wd (E + sz - 8) := 1)\<rparr>"
  have pe: "PUT (wd (E + sz - 8)) 1 s3 = Some s4" using v by (simp add: PUT_valid s4_def)
  have p4: "pre_rel s4 b (E + sz) ?L1 fl {}" unfolding s4_def by (rule pre_rel_epi [OF st(4)])
  have e4: "mem s4 (wd (E + sz - 8)) = 1" by (simp add: s4_def)
  have t4: "mem s4 (wd (E - 8)) = tagw sz False"
    using p4 by (simp add: pre_rel_def tagged_def)
  have "\<And>x. x \<in> free_starts L \<Longrightarrow> x < E" using chain_starts [OF ch] free_starts_sub [of L] by blast
  then have "E \<notin> free_starts L" by blast
  then have "set fl = free_starts ?L1 - {E}" using sf by auto
  then have h4: "heap_rel s4 b (E + sz) ?L1 fl {E}" using p4 e4 by (simp add: heap_rel_def)
  have "coal_post s4 b (E + sz) ?L1 fl E sz (coalesce (wd E) s4)"
    by (rule coalesce_rel [OF h4 m1])
  then obtain c' z' L' fl' m' where
    co: "coalesce (wd E) s4 = Some (wd c', s4\<lparr>mem := m', free_list_start := wd c'\<rparr>)"
    and h6: "heap_rel (s4\<lparr>mem := m', free_list_start := wd c'\<rparr>) b (E + sz) L' fl' {}"
    and m6: "(c', z', False) \<in> set L'" and le: "c' \<le> E" "E + sz \<le> c' + z'"
    and al: "allocd L' = allocd ?L1"
    and fr: "\<forall>a. a < 2 ^ 64 \<and> a \<notin> links_of (E # fl) \<and> a \<noteq> b + 16 \<and> a \<noteq> c' - 8 \<and> a \<noteq> c' + z' - 16 \<longrightarrow>
           m' (wd a) = mem s4 (wd a)"
    unfolding coal_post_def by blast
  let ?s' = "s4\<lparr>mem := m', free_list_start := wd c'\<rparr>"
  have p6: "pre_rel ?s' b (E + sz) L' fl' {}" using h6 by (simp add: heap_rel_def)
  have cb: "b + 64 \<le> c'" "c' + z' \<le> E + sz" using rel_blk [OF p6 m6] by auto
  have ex: "extend_heap (wd w) s = Some (wd c', ?s')"
    using fit E16 El by (simp add: unf sb ucast_not_m1 s1_def [symmetric] st nb hp pe co)
  have nz: "wd c' \<noteq> NULL" using cb le El by (simp add: NULL_def w_zero)
  have hd: "mem ?s' (wd (E - 8)) = tagw sz False"
  proof (cases "c' = E")
    case True
    then have "z' = sz" using cb le by simp
    then show ?thesis using p6 m6 True by (auto simp: pre_rel_def tagged_def)
  next
    case False
    have "\<forall>x \<in> set fl. 16 dvd x \<and> x + 32 \<le> E" using ok by (auto simp: fl_ok_def)
    then have "\<forall>x \<in> set fl. x \<noteq> E - 8 \<and> x + 8 \<noteq> E - 8" using E16 bE by (auto elim!: dvdE)
    then have "E - 8 \<notin> links_of (E # fl)" using bE by (auto simp: links_of_def)
    moreover have "E - 8 < 2 ^ 64 \<and> E - 8 \<noteq> b + 16 \<and> E - 8 \<noteq> c' - 8 \<and> E - 8 \<noteq> c' + z' - 16"
      using False cb le bE El zs by linarith
    ultimately show ?thesis using fr [rule_format, of "E - 8"] t4 by simp
  qed
  have "allocd L' = allocd L" using al by simp
  moreover have "mem_max_addr ?s' = mem_max_addr s" by (simp add: s4_def s3_def s1_def)
  moreover have "sz \<le> z'" using le by simp
  ultimately show "\<exists>s' L' fl' c z. extend_heap (wd w) s = Some (wd c, s') \<and> wd c \<noteq> NULL \<and>
              heap_rel s' b (E + sz) L' fl' {} \<and> (c, z, False) \<in> set L' \<and> sz \<le> z \<and>
              allocd L' = allocd L \<and> mem s' (wd (E - 8)) = tagw sz False \<and>
              mem_max_addr s' = mem_max_addr s"
    using ex nz h6 m6 hd by blast
qed

lemma heap_rel_upd [simp]:
  "heap_rel (s\<lparr>repeat_counter := r\<rparr>) b E L fl X = heap_rel s b E L fl X"
  "heap_rel (s\<lparr>last_malloced_size := l\<rparr>) b E L fl X = heap_rel s b E L fl X"
  by (simp_all add: heap_rel_def pre_rel_def)

lemma escape_words:
  assumes "16 dvd a" "32 \<le> a" "a < 2 ^ 31"
  shows "word_of_int (sint (ucast (MAX_of (wd a) (4 * WSIZE)) :: cint) sdiv 4) = wd (a div 4)"
proof -
  have "(wd 32 < wd a) = (32 < a)" using assms by (intro w_less) auto
  then have mx: "MAX_of (wd a) (4 * WSIZE) = wd a"
    using assms(2) by (cases "a = 32") (auto simp: MAX_of_def WSIZE_def wd_def)
  have "take_bit 64 a = a" using assms(3) by (simp add: take_bit_nat_eq_self_iff)
  then have uc: "(ucast (wd a) :: cint) = of_nat a" by (simp add: wd_def unsigned_of_nat)
  have "signed_take_bit 31 (int a) = int a"
    using assms(3) by (intro signed_take_bit_int_eq_self) auto
  then have si: "sint (of_nat a :: cint) = int a" by (simp add: signed_of_nat)
  have "int a sdiv 4 = int (a div 4)" using assms(2) by (simp add: signed_divide_int_def zdiv_int)
  then show ?thesis unfolding mx uc si by (simp add: wd_def)
qed

lemma sint_top:
  assumes "0 < d" "d \<le> 2 ^ 63"
  shows "sint (wd (2 ^ 64 - d)) < 0"
proof -
  have u: "unat (wd (2 ^ 64 - d)) = 2 ^ 64 - d" using assms by (intro w_unat) simp
  have "uint (wd (2 ^ 64 - d)) = int (2 ^ 64 - d)" using u by (simp add: uint_nat)
  also have "\<dots> = 2 ^ 64 - int d" using assms by (simp add: of_nat_diff)
  finally have ui: "uint (wd (2 ^ 64 - d)) = 2 ^ 64 - int d" .
  have "(2 ^ 64 - int d + 2 ^ 63) = (2 ^ 63 - int d) + 2 ^ 64" by simp
  then have "(2 ^ 64 - int d + 2 ^ 63) mod 2 ^ 64 = ((2 ^ 63 - int d) + 2 ^ 64) mod 2 ^ 64"
    by (simp only:)
  also have "\<dots> = (2 ^ 63 - int d) mod 2 ^ 64" by (rule mod_add_self2)
  also have "\<dots> = 2 ^ 63 - int d" using assms by (intro mod_pos_pos_trivial) auto
  finally have "take_bit 64 (2 ^ 64 - int d + 2 ^ 63) = 2 ^ 63 - int d" by (simp add: take_bit_eq_mod)
  then have "signed_take_bit 63 (2 ^ 64 - int d) = - int d"
    by (simp add: signed_take_bit_eq_take_bit_shift)
  then have "sint (wd (2 ^ 64 - d)) = - int d" using ui by (simp add: sint_uint)
  then show ?thesis using assms by simp
qed

lemma sint_low:
  assumes "2 ^ 31 \<le> a" "a < 2 ^ 32"
  shows "sint (of_nat a :: cint) = int a - 2 ^ 32"
proof -
  have "(int a + 2 ^ 31) = (int a - 2 ^ 31) + 2 ^ 32" by simp
  then have "(int a + 2 ^ 31) mod 2 ^ 32 = ((int a - 2 ^ 31) + 2 ^ 32) mod 2 ^ 32"
    by (simp only:)
  also have "\<dots> = (int a - 2 ^ 31) mod 2 ^ 32" by (rule mod_add_self2)
  also have "\<dots> = int a - 2 ^ 31" using assms by (intro mod_pos_pos_trivial) auto
  finally have "take_bit 32 (int a + 2 ^ 31) = int a - 2 ^ 31" by (simp add: take_bit_eq_mod)
  then have "signed_take_bit 31 (int a) = int a - 2 ^ 32"
    by (simp add: signed_take_bit_eq_take_bit_shift)
  then show ?thesis by (simp add: signed_of_nat)
qed

lemma escape_words_neg:
  assumes "16 dvd a" "2 ^ 31 \<le> a" "a < 2 ^ 32"
  shows "word_of_int (sint (ucast (MAX_of (wd a) (4 * WSIZE)) :: cint) sdiv 4) =
           wd (2 ^ 64 - (2 ^ 32 - a) div 4)"
proof -
  have "(wd 32 < wd a) = (32 < a)" using assms by (intro w_less) auto
  then have mx: "MAX_of (wd a) (4 * WSIZE) = wd a"
    using assms(2) by (auto simp: MAX_of_def WSIZE_def wd_def)
  have "take_bit 64 a = a" using assms(3) by (simp add: take_bit_nat_eq_self_iff)
  then have uc: "(ucast (wd a) :: cint) = of_nat a" by (simp add: wd_def unsigned_of_nat)
  note si = sint_low [OF assms(2,3)]
  define m where "m = (2 ^ 32 - a) div 4"
  have m: "int m = (2 ^ 32 - int a) div 4" "0 < m" "m \<le> 2 ^ 29"
    using assms by (auto simp: m_def zdiv_int of_nat_diff elim!: dvdE)
  have "(int a - 2 ^ 32) sdiv 4 = - int m"
    using assms(3) m(1) by (simp add: signed_divide_int_def sgn_if)
  moreover have "(word_of_int (- int m) :: 64 word) = word_of_int (2 ^ 64 - int m)"
    using word_of_int_minus [of "int m", where ?'a = 64] by simp
  moreover have "2 ^ 64 - int m = int (2 ^ 64 - m)" using m by (simp add: of_nat_diff)
  ultimately show ?thesis unfolding mx uc si m_def [symmetric] by (simp add: wd_def)
qed

lemma extend_heap_refused:
  assumes m: "0 < m" "m \<le> 2 ^ 29" "even m"
  shows "extend_heap (wd (2 ^ 64 - m)) s = Some (NULL, s)"
proof -
  define W :: nat where "W = 2 ^ 64 - m"
  have Wl: "W < 2 ^ 64" using m by (simp add: W_def)
  have u: "unat (wd W) = W" using Wl by (simp add: w_unat)
  have "even W" using m by (simp add: W_def)
  then have "unat (wd W mod 2) = 0" using u by (simp add: unat_mod)
  then have ev: "wd W mod 2 = 0" by (simp add: unat_eq_zero)
  define K :: nat where "K = 2 ^ 64 - 8 * m"
  have "8 * W = 7 * 2 ^ 64 + K" using m by (simp add: W_def K_def)
  then have "(of_nat (8 * W) :: 64 word) = of_nat (7 * 2 ^ 64 + K)" by simp
  also have "\<dots> = of_nat K"
    by (simp only: of_nat_add of_nat_mult) simp
  finally have sz: "wd W * WSIZE = wd K" by (simp add: wd_def WSIZE_def mult.commute)
  have "(wd K < wd 16) = (K < 16)" using m by (intro w_less) (auto simp: K_def)
  then have n16: "\<not> wd K < 16" using m by (simp add: wd_def K_def)
  have neg: "sint (wd K) < 0" unfolding K_def using m by (intro sint_top) auto
  have um: "(ucast (- 1 :: 64 word) :: cint) = - 1"
    by (rule bit_word_eqI) (simp add: bit_ucast_iff)
  show ?thesis
    unfolding W_def [symmetric]
    by (simp add: extend_heap_def ev sz n16 Let_def mem_sbrk_def neg um)
qed

lemma find_fit_loop_rel:
  assumes h: "heap_rel s b E L fl {}"
  shows "\<exists>r. find_fit_loop asize (free_list_start s) s = Some r \<and>
           (r = (NULL, s) \<or>
            (\<exists>c z. r = (wd c, s\<lparr>last_malloced_size := ucast asize\<rparr>) \<and> wd c \<noteq> NULL \<and>
                   (c, z, False) \<in> set L \<and> unat asize \<le> z))"
proof -
  have p: "pre_rel s b E L fl {}" and sf: "set fl = free_starts L"
    using h by (auto simp: heap_rel_def)
  define zs where "zs = (\<lambda>c. SOME z. (c, z, False) \<in> set L)"
  have zsp: "\<And>c. c \<in> set fl \<Longrightarrow> (c, zs c, False) \<in> set L"
  proof -
    fix c assume "c \<in> set fl"
    then have "\<exists>z. (c, z, False) \<in> set L" using sf by (simp add: free_starts_def)
    then show "(c, zs c, False) \<in> set L" unfolding zs_def by (rule someI_ex)
  qed
  have z: "\<forall>c \<in> set fl. mem s (wd (c - 8)) = tagw (zs c) False \<and> 16 dvd zs c \<and> zs c < 2 ^ 64"
  proof
    fix c assume c: "c \<in> set fl"
    have "tagged (mem s) (c, zs c, False)" using p zsp [OF c] by (simp add: pre_rel_def)
    then show "mem s (wd (c - 8)) = tagw (zs c) False \<and> 16 dvd zs c \<and> zs c < 2 ^ 64"
      using rel_blk [OF p zsp [OF c]] by (simp add: tagged_def)
  qed
  have lp: "find_fit_loop asize (wd (hd (fl @ [b + 16]))) s =
           Some (case find (\<lambda>c. unat asize \<le> zs c) fl of
                   None \<Rightarrow> (NULL, s)
                 | Some c \<Rightarrow> (wd c, s\<lparr>last_malloced_size := ucast asize\<rparr>))"
    using pre_relD [OF p] z by (intro find_fit_loop_dll [where E = E and p = 0]) auto
  show ?thesis
  proof (cases "find (\<lambda>c. unat asize \<le> zs c) fl")
    case None
    then show ?thesis using lp pre_relD(9) [OF p] by simp
  next
    case (Some c)
    then have c: "c \<in> set fl" "unat asize \<le> zs c"
      by (auto simp: find_Some_iff)
    have "b + 64 \<le> c" "c + zs c < 2 ^ 64" using rel_blk [OF p zsp [OF c(1)]] by auto
    then have "wd c \<noteq> NULL" by (simp add: NULL_def w_zero)
    then show ?thesis using lp pre_relD(9) [OF p] Some zsp [OF c(1)] c(2) by auto
  qed
qed

lemma find_fit_rel:
  assumes h: "heap_rel s b E L fl {}" and a: "16 dvd a" "32 \<le> a" "a < 2 ^ 32"
  shows "\<exists>bp s' E' L' fl'. find_fit (wd a) s = Some (bp, s') \<and> heap_rel s' b E' L' fl' {} \<and>
           allocd L' = allocd L \<and>
           (bp = NULL \<or> (\<exists>c z. bp = wd c \<and> wd c \<noteq> NULL \<and> (c, z, False) \<in> set L' \<and> a \<le> z))"
proof -
  have ua: "unat (wd a) = a" using a by (simp add: w_unat)
  have loop: "\<And>s0. heap_rel s0 b E L fl {} \<Longrightarrow>
     \<exists>bp s' E' L' fl'. find_fit_loop (wd a) (free_list_start s0) s0 = Some (bp, s') \<and>
        heap_rel s' b E' L' fl' {} \<and> allocd L' = allocd L \<and>
        (bp = NULL \<or> (\<exists>c z. bp = wd c \<and> wd c \<noteq> NULL \<and> (c, z, False) \<in> set L' \<and> a \<le> z))"
  proof -
    fix s0 assume h0: "heap_rel s0 b E L fl {}"
    obtain r where r: "find_fit_loop (wd a) (free_list_start s0) s0 = Some r"
      and d: "r = (NULL, s0) \<or>
            (\<exists>c z. r = (wd c, s0\<lparr>last_malloced_size := ucast (wd a)\<rparr>) \<and> wd c \<noteq> NULL \<and>
                   (c, z, False) \<in> set L \<and> unat (wd a) \<le> z)"
      using find_fit_loop_rel [OF h0, of "wd a"] by blast
    from d show "\<exists>bp s' E' L' fl'. find_fit_loop (wd a) (free_list_start s0) s0 = Some (bp, s') \<and>
        heap_rel s' b E' L' fl' {} \<and> allocd L' = allocd L \<and>
        (bp = NULL \<or> (\<exists>c z. bp = wd c \<and> wd c \<noteq> NULL \<and> (c, z, False) \<in> set L' \<and> a \<le> z))"
    proof
      assume "r = (NULL, s0)"
      then show ?thesis using r h0 by blast
    next
      assume "\<exists>c z. r = (wd c, s0\<lparr>last_malloced_size := ucast (wd a)\<rparr>) \<and> wd c \<noteq> NULL \<and>
                   (c, z, False) \<in> set L \<and> unat (wd a) \<le> z"
      then obtain c z where c: "r = (wd c, s0\<lparr>last_malloced_size := ucast (wd a)\<rparr>)" "wd c \<noteq> NULL"
        "(c, z, False) \<in> set L" "a \<le> z" using ua by auto
      have "heap_rel (s0\<lparr>last_malloced_size := ucast (wd a)\<rparr>) b E L fl {}" using h0 by simp
      then show ?thesis using r c by blast
    qed
  qed
  show ?thesis
  proof (cases "last_malloced_size s = ucast (wd a) \<and> 30 < sint (repeat_counter s)")
    case esc: True
    show ?thesis
    proof (cases "a < 2 ^ 31")
      case small: True
      have p: "pre_rel s b E L fl {}" and sf: "set fl = free_starts L"
        using h by (auto simp: heap_rel_def)
      have w: "4 \<le> a div 4" "a div 4 < 2 ^ 60 - 1" "even (a div 4)" using a by (auto elim!: dvdE)
      have sz: "8 * (if odd (a div 4) then a div 4 + 1 else a div 4) = 2 * a"
        using w(3) a(1) by (auto elim!: dvdE)
      have ff: "find_fit (wd a) s = extend_heap (wd (a div 4)) s"
        using esc by (simp add: find_fit_def escape_words [OF a(1,2) small] Let_def)
      show ?thesis
      proof (cases "E + 2 * a \<le> unat (mem_max_addr s)")
        case fit: True
        obtain s' L' fl' c z where "extend_heap (wd (a div 4)) s = Some (wd c, s')" "wd c \<noteq> NULL"
          "heap_rel s' b (E + 2 * a) L' fl' {}" "(c, z, False) \<in> set L'" "2 * a \<le> z" "allocd L' = allocd L"
          using extend_heap_rel(1) [OF p sf w(1,2)] fit unfolding sz by blast
        moreover have "a \<le> z" using \<open>2 * a \<le> z\<close> by simp
        ultimately show ?thesis unfolding ff by blast
      next
        case False
        then have "extend_heap (wd (a div 4)) s = Some (NULL, s)"
          using extend_heap_rel(2) [OF p sf w(1,2)] unfolding sz by blast
        then show ?thesis unfolding ff using h by blast
      qed
    next
      case False
      then have big: "2 ^ 31 \<le> a" by simp
      obtain k where k: "a = 16 * k" using a(1) by (auto elim!: dvdE)
      have "2 ^ 32 - a = 4 * (2 * (2 ^ 29 - 2 * k))" using a(3) k by simp
      then have "(2 ^ 32 - a) div 4 = 2 * (2 ^ 29 - 2 * k)" by simp
      then have m: "0 < (2 ^ 32 - a) div 4" "(2 ^ 32 - a) div 4 \<le> 2 ^ 29" "even ((2 ^ 32 - a) div 4)"
        using a(3) big k by simp_all
      have "find_fit (wd a) s = extend_heap (wd (2 ^ 64 - (2 ^ 32 - a) div 4)) s"
        using esc by (simp add: find_fit_def escape_words_neg [OF a(1) big a(3)] Let_def)
      then have "find_fit (wd a) s = Some (NULL, s)" using extend_heap_refused [OF m] by simp
      then show ?thesis using h by blast
    qed
  next
    case False
    show ?thesis
    proof (cases "last_malloced_size s = ucast (wd a)")
      case True
      then have "find_fit (wd a) s = find_fit_loop (wd a) (free_list_start (s\<lparr>repeat_counter := repeat_counter s + 1\<rparr>))
            (s\<lparr>repeat_counter := repeat_counter s + 1\<rparr>)"
        using False by (simp add: find_fit_def)
      then show ?thesis using loop [of "s\<lparr>repeat_counter := repeat_counter s + 1\<rparr>"] h by simp
    next
      case False
      then have "find_fit (wd a) s = find_fit_loop (wd a) (free_list_start (s\<lparr>repeat_counter := 0\<rparr>))
            (s\<lparr>repeat_counter := 0\<rparr>)"
        by (simp add: find_fit_def)
      then show ?thesis using loop [of "s\<lparr>repeat_counter := 0\<rparr>"] h by simp
    qed
  qed
qed

lemma adjusted_size_nat:
  assumes "0 < n" "n + 31 < 2 ^ 32"
  shows "\<exists>a. adjusted_size (wd n) = wd a \<and> 16 dvd a \<and> 32 \<le> a \<and> n + 16 \<le> a \<and> a < 2 ^ 32"
proof -
  have u: "unat (wd n) = n" using assms by (simp add: w_unat)
  have le: "(wd n \<le> wd 16) = (n \<le> 16)" using assms by (intro w_le) auto
  have d: "DSIZE = wd 16" by (simp add: DSIZE_def WSIZE_def wd_def)
  show ?thesis
  proof (cases "n \<le> 16")
    case True
    then have "adjusted_size (wd n) = wd 32"
      using le by (simp add: adjusted_size_def d) (simp add: wd_def)
    then show ?thesis using True by (intro exI [of _ 32]) simp
  next
    case False
    then have "DSIZE < wd n" using le by (simp add: d not_le)
    then have "unat (adjusted_size (wd n)) = 16 * ((n + 16 + 15) div 16)"
      using adjusted_size_unat [of "wd n"] assms u by simp
    then have "wd (unat (adjusted_size (wd n))) = wd (16 * ((n + 16 + 15) div 16))" by simp
    then have "adjusted_size (wd n) = wd (16 * ((n + 16 + 15) div 16))" by (simp only: wd_unat)
    moreover have "32 \<le> 16 * ((n + 16 + 15) div 16) \<and> n + 16 \<le> 16 * ((n + 16 + 15) div 16) \<and>
        16 * ((n + 16 + 15) div 16) < 2 ^ 32"
      using assms False by simp arith
    ultimately show ?thesis by (intro exI [of _ "16 * ((n + 16 + 15) div 16)"]) simp
  qed
qed

lemma chunk_words:
  assumes "a < 2 ^ 32"
  shows "MAX_of (wd a) CHUNKSIZE div WSIZE = wd (max a 4096 div 8)"
proof -
  have "(wd 4096 < wd a) = (4096 < a)" using assms by (intro w_less) auto
  then have mx: "MAX_of (wd a) CHUNKSIZE = wd (max a 4096)"
    by (auto simp: MAX_of_def CHUNKSIZE_def wd_def max_def)
  have "unat (wd (max a 4096)) = max a 4096" using assms by (intro w_unat) auto
  then have "unat (wd (max a 4096) div 8) = max a 4096 div 8" by (simp add: unat_div)
  then have "wd (unat (wd (max a 4096) div 8)) = wd (max a 4096 div 8)" by simp
  then have "wd (max a 4096) div 8 = wd (max a 4096 div 8)" by (simp only: wd_unat)
  then show ?thesis by (simp add: mx WSIZE_def)
qed

lemma mm_malloc_rel:
  assumes h: "heap_rel s b E L fl {}" and n: "0 < n" "n + 31 < 2 ^ 32"
  shows "\<exists>p s' E' L' fl'. mm_malloc (wd n) s = Some (p, s') \<and> heap_rel s' b E' L' fl' {} \<and>
           (p = NULL \<and> allocd L' = allocd L \<or>
            (\<exists>c z. p = wd c \<and> p \<noteq> NULL \<and> (c, z, True) \<in> set L' \<and> n + 16 \<le> z \<and>
                   allocd L' = insert (c, z, True) (allocd L)))"
proof -
  have nz: "wd n \<noteq> 0" using n by (simp add: w_zero)
  obtain a where ad: "adjusted_size (wd n) = wd a" and a: "16 dvd a" "32 \<le> a" "a < 2 ^ 32"
    and na: "n + 16 \<le> a"
    using adjusted_size_nat [OF n] by blast
  obtain bp s1 E1 L1 fl1 where ff: "find_fit (wd a) s = Some (bp, s1)"
    and h1: "heap_rel s1 b E1 L1 fl1 {}" and al1: "allocd L1 = allocd L"
    and d: "bp = NULL \<or> (\<exists>c z. bp = wd c \<and> wd c \<noteq> NULL \<and> (c, z, False) \<in> set L1 \<and> a \<le> z)"
    using find_fit_rel [OF h a] by blast
  show ?thesis
  proof (cases "bp = NULL")
    case False
    then obtain c z where c: "bp = wd c" "(c, z, False) \<in> set L1" "a \<le> z" using d by blast
    obtain s2 L2 fl2 z2 where pl: "place (wd c) (wd a) s1 = Some s2" and h2: "heap_rel s2 b E1 L2 fl2 {}"
      and m2: "(c, z2, True) \<in> set L2" "a \<le> z2" and al2: "allocd L2 = insert (c, z2, True) (allocd L1)"
      using place_rel [OF h1 c(2) a(1,2) c(3)] by blast
    have "mm_malloc (wd n) s = Some (wd c, s2)"
      using False nz by (simp add: mm_malloc_def ad ff c(1) [symmetric] pl [unfolded c(1) [symmetric]] Let_def)
    moreover have "n + 16 \<le> z2" using m2 na by simp
    ultimately show ?thesis using h2 m2 al2 al1 False c(1) by auto
  next
    case True
    let ?w = "max a 4096 div 8"
    have p1: "pre_rel s1 b E1 L1 fl1 {}" and sf1: "set fl1 = free_starts L1"
      using h1 by (auto simp: heap_rel_def)
    have w: "4 \<le> ?w" "?w < 2 ^ 60 - 1" using a by auto
    have "even ?w" using a(1) by (cases "a \<le> 4096") (auto simp: max_def elim!: dvdE)
    then have sz: "8 * (if odd ?w then ?w + 1 else ?w) = max a 4096"
      using a(1) by (cases "a \<le> 4096") (auto simp: max_def elim!: dvdE)
    have unf: "mm_malloc (wd n) s = do {
          (bp', s2) \<leftarrow> extend_heap (wd ?w) s1;
          if bp' = NULL then Some (NULL, s2)
          else do { s3 \<leftarrow> place bp' (wd a) s2; Some (bp', s3) }
        }"
      using True nz by (simp add: mm_malloc_def ad ff Let_def chunk_words [OF a(3)])
    show ?thesis
    proof (cases "E1 + max a 4096 \<le> unat (mem_max_addr s1)")
      case fit: True
      obtain s2 L2 fl2 c z where ex: "extend_heap (wd ?w) s1 = Some (wd c, s2)" and cz: "wd c \<noteq> NULL"
        and h2: "heap_rel s2 b (E1 + max a 4096) L2 fl2 {}" and m2: "(c, z, False) \<in> set L2"
        and z: "max a 4096 \<le> z" and al2: "allocd L2 = allocd L1"
        using extend_heap_rel(1) [OF p1 sf1 w] fit unfolding sz by blast
      have az: "a \<le> z" using z by simp
      obtain s3 L3 fl3 z3 where pl: "place (wd c) (wd a) s2 = Some s3"
        and h3: "heap_rel s3 b (E1 + max a 4096) L3 fl3 {}"
        and m3: "(c, z3, True) \<in> set L3" "a \<le> z3" and al3: "allocd L3 = insert (c, z3, True) (allocd L2)"
        using place_rel [OF h2 m2 a(1,2) az] by blast
      have "mm_malloc (wd n) s = Some (wd c, s3)" using cz by (simp add: unf ex pl)
      moreover have "n + 16 \<le> z3" using m3 na by simp
      ultimately show ?thesis using h3 m3 al3 al2 al1 cz by auto
    next
      case False
      then have "extend_heap (wd ?w) s1 = Some (NULL, s1)"
        using extend_heap_rel(2) [OF p1 sf1 w] unfolding sz by blast
      then have "mm_malloc (wd n) s = Some (NULL, s1)" by (simp add: unf)
      then show ?thesis using h1 al1 by blast
    qed
  qed
qed

lemma mm_free_rel:
  assumes h: "heap_rel s b E L fl {}" and m: "(c, z, True) \<in> set L"
  shows "\<exists>s' L' fl'. mm_free (wd c) s = Some s' \<and> heap_rel s' b E L' fl' {} \<and>
           allocd L' = allocd L - {(c, z, True)}"
proof -
  have p: "pre_rel s b E L fl {}" and e: "mem s (wd (E - 8)) = 1"
    and sf: "set fl = free_starts L"
    using h by (auto simp: heap_rel_def)
  have ch: "chain (b + 64) L E" and El: "E < 2 ^ 64" using pre_relD [OF p] by auto
  obtain xs ys where L: "L = xs @ (c, z, True) # ys" and cx: "chain (b + 64) xs c"
    and cy: "chain (c + z) ys E"
    using chain_split [OF ch m] by blast
  have sub: "set fl \<subseteq> fst ` set L" using p by (simp add: pre_rel_def)
  have cb: "32 \<le> z" "b + 64 \<le> c" "c + z \<le> E" "16 dvd z" "16 dvd c" using rel_blk [OF p m] by auto
  have r6: "GET_SIZE s (HDRP (wd c)) = Some (wd z)"
    using rel_reads(1) [OF p m] by simp
  have nz: "wd c \<noteq> NULL" using cb El by (simp add: NULL_def w_zero)
  have sx: "\<And>x. x \<in> fst ` set xs \<Longrightarrow> x < c" using chain_starts [OF cx] by blast
  have sy: "\<And>x. x \<in> fst ` set ys \<Longrightarrow> c + z \<le> x" using chain_starts [OF cy] by blast
  have lx: "\<And>x. x \<in> free_starts xs \<Longrightarrow> x < c" using sx free_starts_sub [of xs] by blast
  have ly: "\<And>x. x \<in> free_starts ys \<Longrightarrow> c + z \<le> x" using sy free_starts_sub [of ys] by blast
  have fsx: "c \<notin> free_starts xs" using lx [of c] by auto
  have fsy: "c \<notin> free_starts ys" using ly [of c] cb by auto
  have ax: "(c, z, True) \<notin> set xs" using sx [of c] by force
  have ay: "(c, z, True) \<notin> set ys" using sy [of c] cb by force
  let ?L1 = "xs @ (c, z, False) # ys"
  have ch1: "chain (b + 64) ?L1 E" using cx cy cb by (simp add: chain_append)
  have m1: "(c, z, False) \<in> set ?L1" by simp
  have p0: "pre_rel s b E ?L1 fl (insert (c, z, False) {})"
  proof (rule rechain [OF p ch1])
    show "set ?L1 - insert (c, z, False) {} \<subseteq> set L - {}" by (auto simp: L)
    show "set fl \<subseteq> fst ` set ?L1" using sub by (simp add: L)
  qed
  define s1 where "s1 = s\<lparr>mem := (mem s)(wd (c - 8) := tagw z False)\<rparr>"
  define s2 where "s2 = s\<lparr>mem := (mem s)(wd (c - 8) := tagw z False, wd (c + z - 16) := tagw z False)\<rparr>"
  have st: "PUT (HDRP (wd c)) (tagw z False) s = Some s1" "FTRP s1 (wd c) = Some (wd (c + z - 16))"
    "PUT (wd (c + z - 16)) (tagw z False) s1 = Some s2" "pre_rel s2 b E ?L1 fl {}"
    and fr2: "\<forall>a. a < 2 ^ 64 \<and> a \<noteq> c - 8 \<and> a \<noteq> c + z - 16 \<longrightarrow> mem s2 (wd a) = mem s (wd a)"
    using step_retag [OF p0 m1] by (simp_all add: s1_def s2_def)
  have "E - 8 \<noteq> c - 8 \<and> E - 8 \<noteq> c + z - 16 \<and> E - 8 < 2 ^ 64" using cb El by linarith
  then have e2: "mem s2 (wd (E - 8)) = 1" using fr2 [rule_format, of "E - 8"] e by simp
  have "set fl = free_starts ?L1 - {c}" using sf fsx fsy by (auto simp: L)
  then have h2: "heap_rel s2 b E ?L1 fl {c}" using st(4) e2 by (simp add: heap_rel_def)
  have "coal_post s2 b E ?L1 fl c z (coalesce (wd c) s2)"
    by (rule coalesce_rel [OF h2 m1])
  then obtain c' z' L' fl' m' where
    co: "coalesce (wd c) s2 = Some (wd c', s2\<lparr>mem := m', free_list_start := wd c'\<rparr>)"
    and h6: "heap_rel (s2\<lparr>mem := m', free_list_start := wd c'\<rparr>) b E L' fl' {}"
    and al: "allocd L' = allocd ?L1"
    unfolding coal_post_def by blast
  have fr: "mm_free (wd c) s = Some (s2\<lparr>mem := m', free_list_start := wd c'\<rparr>)"
    using nz by (simp add: mm_free_def r6 tagw_simps st co)
  have "allocd L' = allocd L - {(c, z, True)}" using al ax ay by (auto simp: L allocd_def)
  then show ?thesis using fr h6 by blast
qed

lemma pre_rel_frame:
  assumes p: "pre_rel s b E L fl U"
    and fr: "\<forall>a. a \<in> tags_of L \<union> links_of fl \<union> {b + 8, b + 48} \<longrightarrow> m' (wd a) = mem s (wd a)"
  shows "pre_rel (s\<lparr>mem := m'\<rparr>) b E L fl U"
proof -
  have t: "\<forall>blk \<in> set L - U. tagged m' blk"
  proof
    fix blk assume bl: "blk \<in> set L - U"
    obtain c z f where blk: "blk = (c, z, f)" by (cases blk) auto
    have m: "(c, z, f) \<in> set L" using bl blk by simp
    have t0: "tagged (mem s) blk" using p bl by (simp add: pre_rel_def)
    have "m' (wd (c - 8)) = mem s (wd (c - 8))" "m' (wd (c + z - 16)) = mem s (wd (c + z - 16))"
      using fr blk_tags_in [OF m] by auto
    then show "tagged m' blk" using t0 by (simp add: tagged_def blk)
  qed
  have sp: "m' (wd (b + 8)) = 17" "m' (wd (b + 48)) AND NOT 15 = 0"
    using fr pre_relD(10,11) [OF p] by auto
  have "\<forall>x \<in> links_of fl. m' (wd x) = mem s (wd x)" using fr by auto
  then have d: "dll m' 0 fl (b + 16)"
    using dll_cong [of fl m' "mem s"] pre_relD(8) [OF p] by simp
  have sub: "set fl \<subseteq> fst ` set L" using p by (simp add: pre_rel_def)
  show ?thesis
    unfolding pre_rel_def using pre_relD(1,2,7,9) [OF p] t sp sub d by simp
qed

lemma write_rel:
  assumes h: "heap_rel s b E L fl {}" and m: "(c, z, True) \<in> set L"
    and a: "8 dvd a" "c \<le> a" "a + 24 \<le> c + z"
  shows "\<exists>s'. PUT (wd a) v s = Some s' \<and> heap_rel s' b E L fl {}"
proof -
  have p: "pre_rel s b E L fl {}" and e: "mem s (wd (E - 8)) = 1"
    and sf: "set fl = free_starts L"
    using h by (auto simp: heap_rel_def)
  have r: "region s b E" and ch: "chain (b + 64) L E" and El: "E < 2 ^ 64"
    using pre_relD [OF p] by auto
  have cb: "32 \<le> z" "b + 64 \<le> c" "c + z \<le> E" using rel_blk [OF p m] by auto
  have v: "valid_addr s (wd a)" using a cb by (intro valid_nat [OF r]) auto
  have nt: "a \<notin> tags_of L" using a by (intro payload_not_tag [OF ch _ m]) auto
  have nl: "a \<notin> links_of fl"
  proof
    assume "a \<in> links_of fl"
    then obtain x where x: "x \<in> set fl" "a = x \<or> a = x + 8" by (auto simp: links_of_def)
    then obtain zx where mx: "(x, zx, False) \<in> set L" using sf by (auto simp: free_starts_def)
    have "32 \<le> zx" using rel_blk [OF p mx] by auto
    moreover have "c + z \<le> x \<or> x + zx \<le> c" using chain_disjoint [OF ch m mx] by auto
    ultimately show False using x(2) a by auto
  qed
  have "\<forall>x. x \<in> tags_of L \<union> links_of fl \<union> {b + 8, b + 48} \<longrightarrow>
      ((mem s)(wd a := v)) (wd x) = mem s (wd x)"
  proof (intro allI impI)
    fix x assume x: "x \<in> tags_of L \<union> links_of fl \<union> {b + 8, b + 48}"
    have sub: "set fl \<subseteq> fst ` set L" using p by (simp add: pre_rel_def)
    have "x < 2 ^ 64"
      using x rel_tags_bounds(2) [OF p, of x] rel_fl_links(4) [OF p sub, of x] El pre_relD(5) [OF p] by auto
    moreover have "x \<noteq> a" using x nt nl a cb by auto
    moreover have "a < 2 ^ 64" using a cb El by simp
    ultimately show "((mem s)(wd a := v)) (wd x) = mem s (wd x)" by (simp add: w_inj)
  qed
  then have p': "pre_rel (s\<lparr>mem := (mem s)(wd a := v)\<rparr>) b E L fl {}" by (rule pre_rel_frame [OF p])
  have "a \<noteq> E - 8 \<and> a < 2 ^ 64 \<and> E - 8 < 2 ^ 64" using a cb El by auto
  then have "((mem s)(wd a := v)) (wd (E - 8)) = 1" using e by (simp add: w_inj)
  then show ?thesis using v p' sf by (simp add: PUT_valid heap_rel_def)
qed

lemma mm_init_rel:
  assumes f: "unat (mem_start_brk s0) = b" "mem_brk s0 = mem_start_brk s0" "16 dvd b" "0 < b"
    and gap: "mem s0 (wd (b + 48)) AND NOT 15 = 0"
  shows "b + 96 \<le> unat (mem_max_addr s0) \<Longrightarrow> \<exists>s L fl. mm_init s0 = Some (0, s) \<and> heap_rel s b (b + 96) L fl {}"
    and "\<not> b + 96 \<le> unat (mem_max_addr s0) \<Longrightarrow> mm_init s0 = None \<or> (\<exists>s. mm_init s0 = Some (- 1, s))"
proof -
  have mx: "unat (mem_max_addr s0) < 2 ^ 64"
    using unsigned_less [of "mem_max_addr s0", where ?'a = nat] by simp
  have ub: "unat (mem_brk s0) = b" using f by simp
  have sb: "mem_sbrk (8 * WSIZE) s0 =
      (if b + 64 \<le> unat (mem_max_addr s0) then (wd b, s0\<lparr>mem_brk := wd (b + 64)\<rparr>) else (- 1, s0))"
    using sbrk_ok [OF ub, of 64] by (simp add: WSIZE_def wd_def)
  have inv: "\<not> valid_addr s (- 1)" for s by (simp add: valid_addr_def)
  have fail: "\<not> b + 64 \<le> unat (mem_max_addr s0) \<Longrightarrow> mm_init s0 = None"
    by (simp add: mm_init_def sb NULL_def PUT_def inv)
  have ok: "b + 64 \<le> unat (mem_max_addr s0) \<Longrightarrow>
      (b + 96 \<le> unat (mem_max_addr s0) \<longrightarrow> (\<exists>s L fl. mm_init s0 = Some (0, s) \<and> heap_rel s b (b + 96) L fl {})) \<and>
      (\<not> b + 96 \<le> unat (mem_max_addr s0) \<longrightarrow> (\<exists>s. mm_init s0 = Some (- 1, s)))"
  proof -
    assume room: "b + 64 \<le> unat (mem_max_addr s0)"
    then have bl: "b + 64 < 2 ^ 64" using mx by simp
    define s1 where "s1 = s0\<lparr>mem_brk := wd (b + 64), heap_listp := wd b\<rparr>"
    have r1: "region s1 b (b + 64)"
      using f bl by (auto simp: region_def s1_def w_unat)
    have nz: "wd b \<noteq> NULL" using f bl by (simp add: NULL_def w_zero)
    have ad: "wd b + WSIZE = wd (b + 8)" "wd b + 2 * WSIZE = wd (b + 16)" "wd b + 3 * WSIZE = wd (b + 24)"
      by (simp_all add: WSIZE_def wd_def)
    have w4: "wd 4 = 4" by (simp add: wd_def)
    have b96: "b + 64 + 32 = b + 96" by simp
    have pk: "PACK DSIZE 1 = 17" "PACK 0 1 = 1" by (simp_all add: PACK_def DSIZE_def WSIZE_def)
    have v: "valid_addr s1 (wd b)" "valid_addr s1 (wd (b + 8))" "valid_addr s1 (wd (b + 16))"
      "valid_addr s1 (wd (b + 24))"
      using f(3) by (auto intro!: valid_nat [OF r1] elim!: dvdE)
    define m5 where "m5 = (mem s1)(wd b := 0, wd (b + 8) := 17, wd (b + 16) := 17, wd (b + 24) := 1)"
    define s5 where "s5 = s1\<lparr>mem := m5, free_list_start := wd (b + 16)\<rparr>"
    have m5: "m5 (wd (b + 8)) = 17" "m5 (wd (b + 48)) = mem s0 (wd (b + 48))"
      using bl by (simp_all add: m5_def w_inj s1_def)
    have p5: "pre_rel s5 b (b + 64) [] [] {}"
      using r1 m5 gap by (simp add: pre_rel_def s5_def fl_ok_def)
    have unf: "mm_init s0 = do {
           (r, s6) \<leftarrow> extend_heap 4 s5;
           if r = NULL then Some (- 1, s6) else Some (0, s6)
         }"
      using room nz v
      by (simp add: mm_init_def sb s1_def [symmetric] ad pk PUT_valid m5_def s5_def)
    have mm: "mem_max_addr s5 = mem_max_addr s0" by (simp add: s5_def s1_def)
    have w: "(4 :: nat) \<le> 4" "(4 :: nat) < 2 ^ 60 - 1" by simp_all
    have sz: "8 * (if odd (4 :: nat) then 4 + 1 else 4) = (32 :: nat)" by simp
    have sf: "set [] = free_starts []" by simp
    show ?thesis
    proof (intro conjI impI)
      assume "b + 96 \<le> unat (mem_max_addr s0)"
      then have "b + 64 + 32 \<le> unat (mem_max_addr s5)" using mm by simp
      then obtain s' L' fl' c where "extend_heap 4 s5 = Some (wd c, s')" "wd c \<noteq> NULL"
        "heap_rel s' b (b + 96) L' fl' {}"
        using extend_heap_rel(1) [OF p5 sf w] unfolding sz w4 b96 by blast
      then show "\<exists>s L fl. mm_init s0 = Some (0, s) \<and> heap_rel s b (b + 96) L fl {}"
        unfolding unf by (intro exI [of _ s'] exI [of _ L'] exI [of _ fl']) simp
    next
      assume "\<not> b + 96 \<le> unat (mem_max_addr s0)"
      then have "\<not> b + 64 + 32 \<le> unat (mem_max_addr s5)" using mm by simp
      then have "extend_heap 4 s5 = Some (NULL, s5)"
        using extend_heap_rel(2) [OF p5 sf w] unfolding sz w4 by blast
      then show "\<exists>s. mm_init s0 = Some (- 1, s)" by (simp add: unf)
    qed
  qed
  show "b + 96 \<le> unat (mem_max_addr s0) \<Longrightarrow> \<exists>s L fl. mm_init s0 = Some (0, s) \<and> heap_rel s b (b + 96) L fl {}"
    using ok by simp
  show "\<not> b + 96 \<le> unat (mem_max_addr s0) \<Longrightarrow> mm_init s0 = None \<or> (\<exists>s. mm_init s0 = Some (- 1, s))"
    using ok fail by blast
qed

lemma chain_length: "chain a L e \<Longrightarrow> a + 32 * length L \<le> e"
proof (induction L arbitrary: a)
  case Nil
  then show ?case by simp
next
  case (Cons blk L)
  obtain c z f where blk: "blk = (c, z, f)" by (cases blk) auto
  have "a + z + 32 * length L \<le> e" "32 \<le> z" using Cons.prems Cons.IH [of "a + z"] blk by auto
  then show ?case by simp
qed

lemma blocks_from_chain:
  assumes p: "pre_rel s b E L0 fl {}"
  shows "chain a L E \<Longrightarrow> set L \<subseteq> set L0 \<Longrightarrow> length L \<le> n \<Longrightarrow>
         blocks_from n s (wd a) = map (\<lambda>blk. wd (fst blk)) L"
proof (induction L arbitrary: a n)
  case Nil
  have "mem_brk s = wd E" using pre_relD(1) [OF p] by (auto simp: region_def)
  then show ?case using Nil by (cases n) auto
next
  case (Cons blk L)
  obtain c z f where blk: "blk = (c, z, f)" by (cases blk) auto
  have a: "a = c" and ch: "chain (c + z) L E" using Cons.prems(1) blk by auto
  have m: "(c, z, f) \<in> set L0" using Cons.prems(2) blk by auto
  have cb: "32 \<le> z" "c + z \<le> E" "c + z < 2 ^ 64" using rel_blk [OF p m] by auto
  obtain n' where n: "n = Suc n'" using Cons.prems(3) by (cases n) auto
  have "mem_brk s = wd E" using pre_relD(1) [OF p] by (auto simp: region_def)
  moreover have "wd c \<noteq> wd E" using cb pre_relD(6) [OF p] by (simp add: w_inj)
  ultimately have ne: "wd c \<noteq> mem_brk s" by simp
  have sz: "GET_SIZE s (HDRP (wd c)) = Some (wd z)" using rel_reads(1) [OF p m] by simp
  have nz: "wd z \<noteq> 0" using cb by (simp add: w_zero)
  have ih: "blocks_from n' s (wd (c + z)) = map (\<lambda>blk. wd (fst blk)) L"
    using Cons.prems n by (intro Cons.IH [OF ch]) auto
  show ?case by (simp add: n a blk ne sz nz w_add ih)
qed

lemma heap_blocks_rel:
  assumes p: "pre_rel s b E L fl {}"
  shows "heap_blocks s = map (\<lambda>blk. wd (fst blk)) L"
proof -
  have r: "region s b E" and ch: "chain (b + 64) L E" and bE: "b + 64 \<le> E" and El: "E < 2 ^ 64"
    using pre_relD [OF p] by auto
  have hb: "heap_listp s = wd b" "mem_brk s = wd E" using r by (auto simp: region_def)
  have "unat (wd E - wd b) = E - b" using bE El by (simp add: w_sub w_unat)
  moreover have "length L \<le> (E - b) div 16" using chain_length [OF ch] by simp
  moreover have "wd b + 8 * WSIZE = wd (b + 64)" by (simp add: WSIZE_def wd_def)
  ultimately show ?thesis
    unfolding heap_blocks_def hb using blocks_from_chain [OF p ch, of "(E - b) div 16"] by simp
qed

lemma hdr_ftr_rel:
  assumes p: "pre_rel s b E L fl {}" and m: "(c, z, f) \<in> set L"
  shows "hdr_ftr_agree s (wd c)"
proof -
  have r: "region s b E" using pre_relD [OF p] by auto
  have cb: "16 dvd c" "16 dvd z" "32 \<le> z" "b + 64 \<le> c" "c + z \<le> E" "c + z < 2 ^ 64"
    using rel_blk [OF p m] by auto
  have t: "mem s (wd (c + z - 16)) = tagw z f" using p m by (auto simp: pre_rel_def tagged_def)
  have v: "valid_addr s (wd (c + z - 16))" using cb by (intro valid_nat [OF r]) (auto elim!: dvdE)
  have "GET_SIZE s (wd (c + z - 16)) = Some (wd z)"
    using GET_SIZE_tag [OF v t] cb by simp
  then show ?thesis
    using rel_reads(1,2,3,5) [OF p m] by (simp add: hdr_ftr_agree_def)
qed

lemma list_from_dll:
  assumes r: "region s b E" and S: "mem s (wd (b + 8)) = 17" and E: "b + 64 \<le> E"
  shows "fl_ok b E cs \<Longrightarrow> dll (mem s) p cs (b + 16) \<Longrightarrow>
     \<forall>c \<in> set cs. mem s (wd (c - 8)) = tagw (zs c) False \<and> 16 dvd zs c \<and> zs c < 2 ^ 64 \<Longrightarrow>
     length cs \<le> n \<Longrightarrow>
     list_from n s (wd (hd (cs @ [b + 16]))) = map wd cs \<and> links_ok s p (map wd cs)"
proof (induction cs arbitrary: p n)
  case Nil
  have b16: "16 dvd b" "0 < b" using r by (auto simp: region_def)
  have "b + 16 - 8 = b + 8" by simp
  then have "mem s (wd (b + 16 - 8)) = tagw 16 True" using S by (simp only: tagw_simps)
  moreover have "b + 16 + 16 < 2 ^ 64" "16 dvd b + 16" using E b16 region_bound [OF r] by auto
  ultimately have "GET_ALLOC s (HDRP (wd (b + 16))) = Some (if True then 1 else 0)"
    using E by (intro block_reads(2) [OF r, of "b + 16" 16 True]) auto
  then show ?case by (cases n) auto
next
  case (Cons c cs)
  have cin: "16 dvd c" "b + 64 \<le> c" "c + 32 \<le> E" using Cons.prems(1) by (auto simp: fl_ok_def)
  have zc: "mem s (wd (c - 8)) = tagw (zs c) False" "16 dvd zs c" "zs c < 2 ^ 64"
    using Cons.prems(3) by auto
  obtain n' where n: "n = Suc n'" using Cons.prems(4) by (cases n) auto
  have rd: "GET_ALLOC s (HDRP (wd c)) = Some 0"
    using GET_ALLOC_tag [of s "wd (c - 8)" "zs c" False] valid_nat [OF r, of "c - 8"] cin zc
    by (auto simp: HDRP_nat elim!: dvdE)
  have nx: "GET_NEXT_PTR s (wd c) = Some (wd (hd (cs @ [b + 16])))"
    using Cons.prems(2) valid_nat [OF r, of "c + 8"] cin
    by (auto simp: GET_NEXT_PTR_def WSIZE_def w_add_num GET_valid elim!: dvdE)
  have pv: "GET_PREV_PTR s (wd c) = Some p"
    using Cons.prems(2) valid_nat [OF r, of c] cin
    by (auto simp: GET_PREV_PTR_def GET_valid elim!: dvdE)
  have ih: "list_from n' s (wd (hd (cs @ [b + 16]))) = map wd cs \<and> links_ok s (wd c) (map wd cs)"
    using Cons.prems n by (intro Cons.IH [of "wd c"]) (auto simp: fl_ok_def)
  have hl: "heap_listp s + 2 * WSIZE = wd (b + 16)"
    using r by (auto simp: region_def WSIZE_def wd_def)
  have hd: "hd (map wd cs @ [wd (b + 16)]) = wd (hd (cs @ [b + 16]))" by (cases cs) auto
  show ?case by (simp add: n rd nx pv ih hl hd)
qed

lemma free_list_rel:
  assumes h: "heap_rel s b E L fl {}"
  shows "free_list_nodes s = map wd fl" "links_ok s NULL (map wd fl)"
proof -
  have p: "pre_rel s b E L fl {}" and sf: "set fl = free_starts L"
    using h by (auto simp: heap_rel_def)
  have r: "region s b E" and ch: "chain (b + 64) L E" and bE: "b + 64 \<le> E" and El: "E < 2 ^ 64"
    and ok: "fl_ok b E fl" and d: "dll (mem s) 0 fl (b + 16)" and S: "mem s (wd (b + 8)) = 17"
    and fs: "free_list_start s = wd (hd (fl @ [b + 16]))"
    using pre_relD [OF p] by auto
  define zs where "zs = (\<lambda>c. SOME z. (c, z, False) \<in> set L)"
  have zsp: "\<And>c. c \<in> set fl \<Longrightarrow> (c, zs c, False) \<in> set L"
  proof -
    fix c assume "c \<in> set fl"
    then have "\<exists>z. (c, z, False) \<in> set L" using sf by (simp add: free_starts_def)
    then show "(c, zs c, False) \<in> set L" unfolding zs_def by (rule someI_ex)
  qed
  have z: "\<forall>c \<in> set fl. mem s (wd (c - 8)) = tagw (zs c) False \<and> 16 dvd zs c \<and> zs c < 2 ^ 64"
  proof
    fix c assume c: "c \<in> set fl"
    have "tagged (mem s) (c, zs c, False)" using p zsp [OF c] by (simp add: pre_rel_def)
    then show "mem s (wd (c - 8)) = tagw (zs c) False \<and> 16 dvd zs c \<and> zs c < 2 ^ 64"
      using rel_blk [OF p zsp [OF c]] by (simp add: tagged_def)
  qed
  have sub: "set fl \<subseteq> fst ` set L" using p by (simp add: pre_rel_def)
  have "length fl = card (set fl)" using ok by (simp add: fl_ok_def distinct_card)
  also have "\<dots> \<le> card (fst ` set L)" using sub by (intro card_mono) auto
  also have "\<dots> \<le> card (set L)" by (intro card_image_le) auto
  also have "\<dots> \<le> length L" by (rule card_length)
  finally have "length fl \<le> (E - b) div 16" using chain_length [OF ch] by simp
  then have "list_from ((E - b) div 16) s (wd (hd (fl @ [b + 16]))) = map wd fl \<and>
      links_ok s 0 (map wd fl)"
    using ok d z by (intro list_from_dll [OF r S bE]) auto
  moreover have hb: "heap_listp s = wd b" "mem_brk s = wd E" using r by (auto simp: region_def)
  moreover have "unat (wd E - wd b) = E - b" using bE El by (simp add: w_sub w_unat)
  ultimately show "free_list_nodes s = map wd fl" "links_ok s NULL (map wd fl)"
    by (simp_all add: free_list_nodes_def fs NULL_def)
qed

lemma wd_inj_on: "\<forall>x \<in> A. x < 2 ^ 64 \<Longrightarrow> inj_on wd A"
  by (auto simp: inj_on_def w_inj)

lemma free_set_rel:
  assumes h: "heap_rel s b E L fl {}"
  shows "set (map wd fl) = set (filter (\<lambda>bp. alloc_at bp s = Some 0) (heap_blocks s))"
    and "distinct (map wd fl)"
proof -
  have p: "pre_rel s b E L fl {}" and sf: "set fl = free_starts L"
    using h by (auto simp: heap_rel_def)
  have ch: "chain (b + 64) L E" and El: "E < 2 ^ 64" and ok: "fl_ok b E fl"
    using pre_relD [OF p] by auto
  have al: "\<And>c z f. (c, z, f) \<in> set L \<Longrightarrow> (alloc_at (wd c) s = Some 0) = (\<not> f)"
    using rel_reads(2) [OF p] by (simp add: alloc_at_def)
  have "set (filter (\<lambda>bp. alloc_at bp s = Some 0) (heap_blocks s)) = wd ` free_starts L"
    unfolding heap_blocks_rel [OF p]
  proof (intro set_eqI iffI)
    fix x assume "x \<in> set (filter (\<lambda>bp. alloc_at bp s = Some 0) (map (\<lambda>blk. wd (fst blk)) L))"
    then obtain c z f where m: "(c, z, f) \<in> set L" "x = wd c" "alloc_at (wd c) s = Some 0" by auto
    then have "\<not> f" using al by blast
    then show "x \<in> wd ` free_starts L" using m by (auto simp: free_starts_def)
  next
    fix x assume "x \<in> wd ` free_starts L"
    then obtain c z where m: "(c, z, False) \<in> set L" "x = wd c" by (auto simp: free_starts_def)
    then have "alloc_at (wd c) s = Some 0" using al by blast
    then show "x \<in> set (filter (\<lambda>bp. alloc_at bp s = Some 0) (map (\<lambda>blk. wd (fst blk)) L))"
      using m by force
  qed
  then show "set (map wd fl) = set (filter (\<lambda>bp. alloc_at bp s = Some 0) (heap_blocks s))"
    using sf by simp
  have "\<forall>x \<in> set fl. x < 2 ^ 64" using ok El by (auto simp: fl_ok_def)
  then show "distinct (map wd fl)" using ok by (simp add: distinct_map fl_ok_def wd_inj_on)
qed

lemma blocks_alloc:
  assumes p: "pre_rel s b E L fl {}" and bp: "bp \<in> set (heap_blocks s)"
  shows "\<exists>c z f. bp = wd c \<and> (c, z, f) \<in> set L \<and> size_at bp s = Some (wd z) \<and>
           alloc_at bp s = Some (if f then 1 else 0)"
proof -
  obtain c z f where m: "(c, z, f) \<in> set L" "bp = wd c"
    using bp unfolding heap_blocks_rel [OF p] by auto
  then show ?thesis using rel_reads(1,2) [OF p m(1)]
    by (intro exI [of _ c] exI [of _ z] exI [of _ f]) (simp add: size_at_def alloc_at_def)
qed

lemma chain_start_unique:
  assumes "chain a L e" "(c, z1, f1) \<in> set L" "(c, z2, f2) \<in> set L"
  shows "z1 = z2 \<and> f1 = f2"
proof (rule ccontr)
  assume "\<not> (z1 = z2 \<and> f1 = f2)"
  then have "(c, z1, f1) \<noteq> (c, z2, f2)" by simp
  then have "c + z1 \<le> c \<or> c + z2 \<le> c" using chain_disjoint [OF assms] by simp
  moreover have "32 \<le> z1" "32 \<le> z2" using chain_bounds [OF assms(1)] assms(2,3) by auto
  ultimately show False by simp
qed

lemma mm_free_cover:
  assumes h: "heap_rel s b E L fl {}" and m: "(c, z, True) \<in> set L"
  shows "\<exists>s' L' fl' c' z'. mm_free (wd c) s = Some s' \<and> heap_rel s' b E L' fl' {} \<and>
           allocd L' = allocd L - {(c, z, True)} \<and>
           (c', z', False) \<in> set L' \<and> c' \<le> c \<and> c + z \<le> c' + z'"
proof -
  have p: "pre_rel s b E L fl {}" and e: "mem s (wd (E - 8)) = 1"
    and sf: "set fl = free_starts L"
    using h by (auto simp: heap_rel_def)
  have ch: "chain (b + 64) L E" and El: "E < 2 ^ 64" using pre_relD [OF p] by auto
  obtain xs ys where L: "L = xs @ (c, z, True) # ys" and cx: "chain (b + 64) xs c"
    and cy: "chain (c + z) ys E"
    using chain_split [OF ch m] by blast
  have sub: "set fl \<subseteq> fst ` set L" using p by (simp add: pre_rel_def)
  have cb: "32 \<le> z" "b + 64 \<le> c" "c + z \<le> E" "16 dvd z" "16 dvd c" using rel_blk [OF p m] by auto
  have r6: "GET_SIZE s (HDRP (wd c)) = Some (wd z)"
    using rel_reads(1) [OF p m] by simp
  have nz: "wd c \<noteq> NULL" using cb El by (simp add: NULL_def w_zero)
  have sx: "\<And>x. x \<in> fst ` set xs \<Longrightarrow> x < c" using chain_starts [OF cx] by blast
  have sy: "\<And>x. x \<in> fst ` set ys \<Longrightarrow> c + z \<le> x" using chain_starts [OF cy] by blast
  have lx: "\<And>x. x \<in> free_starts xs \<Longrightarrow> x < c" using sx free_starts_sub [of xs] by blast
  have ly: "\<And>x. x \<in> free_starts ys \<Longrightarrow> c + z \<le> x" using sy free_starts_sub [of ys] by blast
  have fsx: "c \<notin> free_starts xs" using lx [of c] by auto
  have fsy: "c \<notin> free_starts ys" using ly [of c] cb by auto
  have ax: "(c, z, True) \<notin> set xs" using sx [of c] by force
  have ay: "(c, z, True) \<notin> set ys" using sy [of c] cb by force
  let ?L1 = "xs @ (c, z, False) # ys"
  have ch1: "chain (b + 64) ?L1 E" using cx cy cb by (simp add: chain_append)
  have m1: "(c, z, False) \<in> set ?L1" by simp
  have p0: "pre_rel s b E ?L1 fl (insert (c, z, False) {})"
  proof (rule rechain [OF p ch1])
    show "set ?L1 - insert (c, z, False) {} \<subseteq> set L - {}" by (auto simp: L)
    show "set fl \<subseteq> fst ` set ?L1" using sub by (simp add: L)
  qed
  define s1 where "s1 = s\<lparr>mem := (mem s)(wd (c - 8) := tagw z False)\<rparr>"
  define s2 where "s2 = s\<lparr>mem := (mem s)(wd (c - 8) := tagw z False, wd (c + z - 16) := tagw z False)\<rparr>"
  have st: "PUT (HDRP (wd c)) (tagw z False) s = Some s1" "FTRP s1 (wd c) = Some (wd (c + z - 16))"
    "PUT (wd (c + z - 16)) (tagw z False) s1 = Some s2" "pre_rel s2 b E ?L1 fl {}"
    and fr2: "\<forall>a. a < 2 ^ 64 \<and> a \<noteq> c - 8 \<and> a \<noteq> c + z - 16 \<longrightarrow> mem s2 (wd a) = mem s (wd a)"
    using step_retag [OF p0 m1] by (simp_all add: s1_def s2_def)
  have "E - 8 \<noteq> c - 8 \<and> E - 8 \<noteq> c + z - 16 \<and> E - 8 < 2 ^ 64" using cb El by linarith
  then have e2: "mem s2 (wd (E - 8)) = 1" using fr2 [rule_format, of "E - 8"] e by simp
  have "set fl = free_starts ?L1 - {c}" using sf fsx fsy by (auto simp: L)
  then have h2: "heap_rel s2 b E ?L1 fl {c}" using st(4) e2 by (simp add: heap_rel_def)
  have "coal_post s2 b E ?L1 fl c z (coalesce (wd c) s2)"
    by (rule coalesce_rel [OF h2 m1])
  then obtain c' z' L' fl' m' where
    co: "coalesce (wd c) s2 = Some (wd c', s2\<lparr>mem := m', free_list_start := wd c'\<rparr>)"
    and h6: "heap_rel (s2\<lparr>mem := m', free_list_start := wd c'\<rparr>) b E L' fl' {}"
    and cv: "(c', z', False) \<in> set L'" "c' \<le> c" "c + z \<le> c' + z'"
    and al: "allocd L' = allocd ?L1"
    unfolding coal_post_def by blast
  have fr: "mm_free (wd c) s = Some (s2\<lparr>mem := m', free_list_start := wd c'\<rparr>)"
    using nz by (simp add: mm_free_def r6 tagw_simps st co)
  have "allocd L' = allocd L - {(c, z, True)}" using al ax ay by (auto simp: L allocd_def)
  then show ?thesis using fr h6 cv by blast
qed

lemma sint_pos_nz: "0 < sint (x :: cint) \<Longrightarrow> \<not> sint x < 0 \<and> x \<noteq> 0"
  by auto

lemma realloc_absorb_rel:
  assumes h: "heap_rel s b E L fl {}" and m: "(c, z, True) \<in> set L"
    and mn: "(c + z, zn, False) \<in> set L"
    and pos: "0 < sint (ucast sz :: cint)"
    and big: "\<not> sz + 2 * WSIZE \<le> wd z" and fits: "sz + 2 * WSIZE \<le> wd (z + zn)"
  shows "\<exists>s' L' fl'. mm_realloc (wd c) sz s = Some (wd c, s') \<and> heap_rel s' b E L' fl' {} \<and>
           (c, z + zn, True) \<in> set L' \<and> set fl' = set fl - {c + z} \<and>
           allocd L' = insert (c, z + zn, True) (allocd L - {(c, z, True)}) \<and>
           (\<forall>a. a < 2 ^ 64 \<and> a \<notin> links_of fl \<and> a \<noteq> b + 16 \<and> a \<noteq> c - 8 \<and> a \<noteq> c + (z + zn) - 16 \<longrightarrow>
              mem s' (wd a) = mem s (wd a))"
proof -
  have p: "pre_rel s b E L fl {}" and e: "mem s (wd (E - 8)) = 1"
    and sf: "set fl = free_starts L"
    using h by (auto simp: heap_rel_def)
  have ch: "chain (b + 64) L E" and El: "E < 2 ^ 64" and ok: "fl_ok b E fl"
    using pre_relD [OF p] by auto
  have dist: "distinct fl" using ok by (simp add: fl_ok_def)
  obtain xs ys where L: "L = xs @ (c, z, True) # ys" and cx: "chain (b + 64) xs c"
    and cy: "chain (c + z) ys E"
    using chain_split [OF ch m] by blast
  have cb: "32 \<le> z" "b + 64 \<le> c" "c + z \<le> E" "16 dvd z" "16 dvd c" using rel_blk [OF p m] by auto
  have nb: "32 \<le> zn" "c + z + zn \<le> E" "16 dvd zn" using rel_blk [OF p mn] by auto
  have sx: "\<And>x. x \<in> fst ` set xs \<Longrightarrow> x < c" using chain_starts [OF cx] by blast
  have my: "(c + z, zn, False) \<in> set ys" using mn sx [of "c + z"] cb by (force simp: L)
  then obtain blk ys' where ys0: "ys = blk # ys'" by (cases ys) auto
  obtain c0 z0 f0 where blk: "blk = (c0, z0, f0)" by (cases blk) auto
  have c0: "c0 = c + z" using cy ys0 blk by simp
  have "(c + z, z0, f0) \<in> set ys" using ys0 blk c0 by simp
  then have "z0 = zn \<and> f0 = False" using chain_start_unique [OF cy _ my] by blast
  then have ys: "ys = (c + z, zn, False) # ys'" using ys0 blk c0 by simp
  have cy': "chain (c + z + zn) ys' E" using cy ys by simp
  have sy': "\<And>x. x \<in> fst ` set ys' \<Longrightarrow> c + z + zn \<le> x" using chain_starts [OF cy'] by blast
  have lx: "\<And>x. x \<in> free_starts xs \<Longrightarrow> x < c" using sx free_starts_sub [of xs] by blast
  have ly: "\<And>x. x \<in> free_starts ys' \<Longrightarrow> c + z + zn \<le> x" using sy' free_starts_sub [of ys'] by blast
  have nn: "c + z \<notin> free_starts xs" "c + z \<notin> free_starts ys'"
    using lx [of "c + z"] ly [of "c + z"] nb by auto
  have ax: "(c, z, True) \<notin> set xs" using sx [of c] by force
  have ay: "(c, z, True) \<notin> set ys'" using sy' [of c] cb nb by force
  have nfl: "c + z \<in> set fl" using sf mn by (auto simp: free_starts_def)
  then obtain fx fy where fl: "fl = fx @ (c + z) # fy" by (meson split_list)
  have fs1: "set (fx @ fy) = set fl - {c + z}" using remove1_split [OF dist fl] by auto
  have r6: "GET_SIZE s (HDRP (wd c)) = Some (wd z)" and r4: "NEXT_BLK s (wd c) = Some (wd (c + z))"
    using rel_reads(1,4) [OF p m] by simp_all
  have rn: "GET_SIZE s (HDRP (wd (c + z))) = Some (wd zn)" "GET_ALLOC s (HDRP (wd (c + z))) = Some 0"
    using rel_reads(1,2) [OF p mn] by simp_all
  obtain m1 where rm: "remove_from_free_list (wd (c + z)) s =
         Some (s\<lparr>mem := m1, free_list_start := wd (hd (fx @ fy @ [b + 16]))\<rparr>)"
    and p1: "pre_rel (s\<lparr>mem := m1, free_list_start := wd (hd (fx @ fy @ [b + 16]))\<rparr>) b E L (fx @ fy) {}"
    and fr1: "\<forall>a. a < 2 ^ 64 \<and> a \<notin> links_of fl \<and> a \<noteq> b + 16 \<longrightarrow> m1 (wd a) = mem s (wd a)"
    using step_remove [OF p fl] by blast
  define s1 where "s1 = s\<lparr>mem := m1, free_list_start := wd (hd (fx @ fy @ [b + 16]))\<rparr>"
  have sub: "set fl \<subseteq> fst ` set L" using p by (simp add: pre_rel_def)
  have e1: "mem s1 (wd (E - 8)) = 1" using frame_rel(4) [OF p sub fr1] e by (simp add: s1_def)
  let ?L' = "xs @ (c, z + zn, True) # ys'"
  have "chain (c + (z + zn)) ys' E" using cy' by (simp add: add.assoc)
  then have ch': "chain (b + 64) ?L' E" using cx cb nb by (simp add: chain_append)
  have m': "(c, z + zn, True) \<in> set ?L'" by simp
  have fsL: "free_starts L = free_starts xs \<union> {c + z} \<union> free_starts ys'" by (simp add: L ys)
  have fsL': "free_starts ?L' = free_starts xs \<union> free_starts ys'" by simp
  have sg: "set (fx @ fy) = free_starts xs \<union> {c + z} \<union> free_starts ys' - {c + z}"
    by (simp only: fs1 sf fsL)
  have rest: "set (fx @ fy) = free_starts ?L'" unfolding sg fsL' using nn by blast
  have p1': "pre_rel s1 b E ?L' (fx @ fy) (insert (c, z + zn, True) {})"
    unfolding s1_def
  proof (rule rechain [OF p1 ch'])
    show "set ?L' - insert (c, z + zn, True) {} \<subseteq> set L - {}" by (auto simp: L ys)
    show "set (fx @ fy) \<subseteq> fst ` set ?L'" unfolding rest using free_starts_sub [of ?L'] by blast
  qed
  define s2 where "s2 = s1\<lparr>mem := (mem s1)(wd (c - 8) := tagw (z + zn) True)\<rparr>"
  define s3 where "s3 = s1\<lparr>mem := (mem s1)(wd (c - 8) := tagw (z + zn) True,
       wd (c + (z + zn) - 16) := tagw (z + zn) True)\<rparr>"
  have st: "PUT (HDRP (wd c)) (tagw (z + zn) True) s1 = Some s2"
    "FTRP s2 (wd c) = Some (wd (c + (z + zn) - 16))"
    "PUT (wd (c + (z + zn) - 16)) (tagw (z + zn) True) s2 = Some s3" "pre_rel s3 b E ?L' (fx @ fy) {}"
    and fr3: "\<forall>a. a < 2 ^ 64 \<and> a \<noteq> c - 8 \<and> a \<noteq> c + (z + zn) - 16 \<longrightarrow> mem s3 (wd a) = mem s1 (wd a)"
    using step_retag [OF p1' m'] by (simp_all add: s2_def s3_def)
  have "E - 8 \<noteq> c - 8 \<and> E - 8 \<noteq> c + (z + zn) - 16 \<and> E - 8 < 2 ^ 64" using cb nb El by linarith
  then have e3: "mem s3 (wd (E - 8)) = 1" using fr3 [rule_format, of "E - 8"] e1 by simp
  have h3: "heap_rel s3 b E ?L' (fx @ fy) {}" using st(4) e3 rest by (simp add: heap_rel_def)
  have szp: "\<not> sint (ucast sz :: cint) < 0" "(ucast sz :: cint) \<noteq> 0" using sint_pos_nz [OF pos] by auto
  then have "sz \<noteq> 0" by auto
  then have gt: "0 < sz" by (simp add: word_neq_0_conv)
  have cs: "wd z + wd zn = wd (z + zn)" by (simp add: w_add)
  have re: "mm_realloc (wd c) sz s = Some (wd c, s3)"
    using szp gt big fits
    by (simp add: mm_realloc_def r6 r4 rn cs Let_def rm s1_def [symmetric] tagw_simps st)
  have al: "allocd ?L' = insert (c, z + zn, True) (allocd L - {(c, z, True)})"
    using ax ay by (auto simp: L ys allocd_def)
  have fr: "\<forall>a. a < 2 ^ 64 \<and> a \<notin> links_of fl \<and> a \<noteq> b + 16 \<and> a \<noteq> c - 8 \<and> a \<noteq> c + (z + zn) - 16 \<longrightarrow>
              mem s3 (wd a) = mem s (wd a)"
    using fr3 fr1 by (simp add: s1_def)
  show ?thesis using re h3 m' fs1 al fr by blast
qed

lemma realloc_in_place_rel:
  assumes h: "heap_rel s b E L fl {}" and m: "(c, z, True) \<in> set L"
    and ip: "served_in_place (wd c) sz s" and r: "mm_realloc (wd c) sz s = Some (p, s')"
  shows "\<exists>L' fl'. heap_rel s' b E L' fl' {}"
proof -
  have p: "pre_rel s b E L fl {}" and e: "mem s (wd (E - 8)) = 1"
    using h by (auto simp: heap_rel_def)
  have ch: "chain (b + 64) L E" using pre_relD [OF p] by auto
  show ?thesis
  proof (cases "sint (ucast sz :: cint) < 0")
    case True
    then have "s' = s" using r by (simp add: mm_realloc_def)
    then show ?thesis using h by blast
  next
    case nn: False
    show ?thesis
    proof (cases "(ucast sz :: cint) = 0")
      case True
      then obtain s1 where "mm_free (wd c) s = Some s1" "s' = s1"
        using r nn by (auto simp: mm_realloc_def split: bind_splits)
      then show ?thesis using mm_free_rel [OF h m] by auto
    next
      case nz: False
      then have "sz \<noteq> 0" by auto
      then have gt: "0 < sz" by (simp add: word_neq_0_conv)
      have "sint (ucast sz :: cint) \<noteq> 0"
      proof
        assume "sint (ucast sz :: cint) = 0"
        then have "word_of_int (sint (ucast sz :: cint)) = (0 :: cint)" by simp
        then show False using nz by simp
      qed
      then have pos: "0 < sint (ucast sz :: cint)" using nn by simp
      have r6: "GET_SIZE s (HDRP (wd c)) = Some (wd z)" and r4: "NEXT_BLK s (wd c) = Some (wd (c + z))"
        using rel_reads(1,4) [OF p m] by simp_all
      show ?thesis
      proof (cases "sz + 2 * WSIZE \<le> wd z")
        case True
        then have "s' = s" using r nn nz gt by (simp add: mm_realloc_def r6 Let_def)
        then show ?thesis using h by blast
      next
        case big: False
        obtain xs ys where L: "L = xs @ (c, z, True) # ys" and cy: "chain (c + z) ys E"
          using chain_split [OF ch m] by blast
        have ra: "GET_ALLOC s (HDRP (wd (c + z))) = Some (if ys = [] \<or> snd (snd (hd ys)) then 1 else 0)"
          using coalesce_next_read [OF p e L] .
        show ?thesis
        proof (cases "ys = [] \<or> snd (snd (hd ys))")
          case True
          then have "\<not> served_in_place (wd c) sz s"
            using pos big by (simp add: served_in_place_def size_at_def alloc_at_def r6 r4 ra)
          then show ?thesis using ip by simp
        next
          case False
          then obtain zn ys' where ys: "ys = (c + z, zn, False) # ys'"
            using cy by (cases ys) auto
          have mn: "(c + z, zn, False) \<in> set L" by (simp add: L ys)
          have rn: "GET_SIZE s (HDRP (wd (c + z))) = Some (wd zn)"
            using rel_reads(1) [OF p mn] by simp
          show ?thesis
          proof (cases "sz + 2 * WSIZE \<le> wd (z + zn)")
            case True
            obtain s1 L' fl' where "mm_realloc (wd c) sz s = Some (wd c, s1)" "heap_rel s1 b E L' fl' {}"
              using realloc_absorb_rel [OF h m mn pos big True] by blast
            then show ?thesis using r by auto
          next
            case False
            then have "\<not> served_in_place (wd c) sz s"
              using pos big by (simp add: served_in_place_def size_at_def alloc_at_def r6 r4 rn w_add)
            then show ?thesis using ip by simp
          qed
        qed
      qed
    qed
  qed
qed

lemma reachable_rel: "reachable s \<Longrightarrow> \<exists>b E L fl. heap_rel s b E L fl {}"
proof (induction rule: reachable.induct)
  case (init s0 s)
  define b where "b = unat (mem_start_brk s0)"
  have f: "unat (mem_start_brk s0) = b" "mem_brk s0 = mem_start_brk s0" "16 dvd b" "0 < b"
    using init(1) by (auto simp: provider_fresh_def b_def unat_gt_0)
  have bl: "b < 2 ^ 64" unfolding b_def using unsigned_less [of "mem_start_brk s0", where ?'a = nat] by simp
  have ms: "mem_start_brk s0 = wd b" by (simp add: b_def)
  have "mem_start_brk s0 + 6 * WSIZE = wd (b + 48)" by (simp add: ms WSIZE_def wd_def)
  then have gap: "mem s0 (wd (b + 48)) AND NOT 15 = 0"
    using init(1) by (simp add: provider_fresh_def DSIZE_def WSIZE_def)
  show ?case
  proof (cases "b + 96 \<le> unat (mem_max_addr s0)")
    case True
    then show ?thesis using mm_init_rel(1) [OF f gap] init(2) by auto
  next
    case False
    then show ?thesis using mm_init_rel(2) [OF f gap] init(2) by auto
  qed
next
  case (malloc s sz p s')
  then obtain b E L fl where h: "heap_rel s b E L fl {}" by blast
  show ?case
  proof (cases "sz = 0")
    case True
    then show ?thesis using malloc(3) h by (auto simp: mm_malloc_def)
  next
    case False
    then have n: "0 < unat sz" by (simp add: unat_gt_0)
    show ?thesis using mm_malloc_rel [OF h n malloc(2)] malloc(3) by auto
  qed
next
  case (free s bp s')
  then obtain b E L fl where h: "heap_rel s b E L fl {}" by blast
  then have p: "pre_rel s b E L fl {}" by (simp add: heap_rel_def)
  obtain c z f where m: "bp = wd c" "(c, z, f) \<in> set L" "alloc_at bp s = Some (if f then 1 else 0)"
    using blocks_alloc [OF p free(2)] by blast
  then have "f" using free(3) by (auto split: if_splits)
  then have "(c, z, True) \<in> set L" using m(2) by simp
  then show ?case using mm_free_rel [OF h, of c z] m(1) free(4) by auto
next
  case (realloc s bp sz p s')
  then obtain b E L fl where h: "heap_rel s b E L fl {}" by blast
  then have p: "pre_rel s b E L fl {}" by (simp add: heap_rel_def)
  obtain c z f where m: "bp = wd c" "(c, z, f) \<in> set L" "alloc_at bp s = Some (if f then 1 else 0)"
    using blocks_alloc [OF p realloc(2)] by blast
  then have "f" using realloc(3) by (auto split: if_splits)
  then have "(c, z, True) \<in> set L" using m(2) by simp
  then show ?case using realloc_in_place_rel [OF h _ realloc(4,5) [unfolded m(1)]] by blast
next
  case (store s bp z a v s')
  then obtain b E L fl where h: "heap_rel s b E L fl {}" by blast
  then have p: "pre_rel s b E L fl {}" by (simp add: heap_rel_def)
  obtain c z' f where m: "bp = wd c" "(c, z', f) \<in> set L" "size_at bp s = Some (wd z')"
    "alloc_at bp s = Some (if f then 1 else 0)"
    using blocks_alloc [OF p store(2)] by blast
  then have f: "f" using store(3) by (auto split: if_splits)
  then have mt: "(c, z', True) \<in> set L" using m(2) by simp
  have cb: "c + z' < 2 ^ 64" using rel_blk [OF p m(2)] by auto
  have z: "z = wd z'" using m(3) store(4) by simp
  have u: "unat bp = c" "unat z = z'" using cb by (simp_all add: m(1) z w_unat)
  have va: "valid_addr s a" using store(7) by (auto simp: PUT_def split: if_splits)
  then have "wd (unat a) AND 7 = 0" by (simp add: valid_addr_def)
  then have a8: "8 dvd unat a"
    using w_aligned [of "unat a"] unsigned_less [of a, where ?'a = nat] by simp
  have "c \<le> unat a" using store(5) u by (simp add: word_le_nat_alt)
  moreover have "unat a + 24 \<le> c + z'" using store(6) u by (simp add: WSIZE_def)
  ultimately obtain s'' where "PUT (wd (unat a)) v s = Some s''" "heap_rel s'' b E L fl {}"
    using write_rel [OF h mt a8, of v] by blast
  then show ?case using store(7) by auto
qed

lemma mm_malloc_total:
  assumes "reachable s" "unat sz + 31 < 2 ^ 32"
  shows "\<exists>p s'. mm_malloc sz s = Some (p, s') \<and> reachable s'"
proof -
  obtain b E L fl where h: "heap_rel s b E L fl {}" using reachable_rel [OF assms(1)] by blast
  have "\<exists>p s'. mm_malloc sz s = Some (p, s')"
  proof (cases "sz = 0")
    case True
    then show ?thesis by (simp add: mm_malloc_def)
  next
    case False
    then have "0 < unat sz" by (simp add: unat_gt_0)
    then show ?thesis using mm_malloc_rel [OF h _ assms(2)] by auto
  qed
  then show ?thesis using reachable.malloc [OF assms] by blast
qed

lemma mm_free_total:
  assumes "reachable s" "bp \<in> set (heap_blocks s)" "alloc_at bp s = Some 1"
  shows "\<exists>s'. mm_free bp s = Some s' \<and> reachable s'"
proof -
  obtain b E L fl where h: "heap_rel s b E L fl {}" using reachable_rel [OF assms(1)] by blast
  then have p: "pre_rel s b E L fl {}" by (simp add: heap_rel_def)
  obtain c z f where m: "bp = wd c" "(c, z, f) \<in> set L" "alloc_at bp s = Some (if f then 1 else 0)"
    using blocks_alloc [OF p assms(2)] by blast
  then have "f" using assms(3) by (auto split: if_splits)
  then have "(c, z, True) \<in> set L" using m(2) by simp
  then have "\<exists>s'. mm_free bp s = Some s'" using mm_free_rel [OF h] m(1) by blast
  then show ?thesis using reachable.free [OF assms] by blast
qed

lemma reach_malloc:
  "reachable s \<Longrightarrow> unat sz + 31 < 2 ^ 32 \<Longrightarrow> reachable (snd (the (mm_malloc sz s)))"
  using mm_malloc_total [of s sz] by auto

lemma reach_free:
  "reachable s \<Longrightarrow> bp \<in> set (heap_blocks s) \<and> alloc_at bp s = Some 1 \<Longrightarrow>
   reachable (the (mm_free bp s))"
  using mm_free_total [of s bp] by auto

lemma reachable_after_init: "reachable heap_after_init"
proof -
  have "map_option fst (mm_init fresh_heap) = Some 0"
    unfolding fresh_heap_def by code_simp
  then have "mm_init fresh_heap = Some (0, heap_after_init)"
    by (cases "mm_init fresh_heap") (auto simp: heap_after_init_def)
  moreover have "provider_fresh fresh_heap"
    by (simp add: provider_fresh_def fresh_heap_def WSIZE_def DSIZE_def)
  ultimately show ?thesis by (rule reachable.init [rotated])
qed

lemma reachable_one_block: "reachable one_block_heap"
  unfolding one_block_heap_def by (rule reach_malloc [OF reachable_after_init]) simp

lemma reachable_sample: "reachable sample_heap"
proof -
  have r2: "reachable two_block_heap"
    unfolding two_block_heap_def by (rule reach_malloc [OF reachable_one_block]) simp
  have "0x10040 \<in> set (heap_blocks two_block_heap) \<and> alloc_at 0x10040 two_block_heap = Some 1"
    unfolding two_block_heap_def one_block_heap_def heap_after_init_def fresh_heap_def by code_simp
  then show ?thesis unfolding sample_heap_def by (rule reach_free [OF r2])
qed

lemma reachable_absorb: "reachable absorb_heap"
proof -
  let ?s2 = "snd (the (mm_malloc 32 (snd (the (mm_malloc 32 heap_after_init)))))"
  have r2: "reachable ?s2"
    by (intro reach_malloc reachable_after_init) simp_all
  have "0x10070 \<in> set (heap_blocks ?s2) \<and> alloc_at 0x10070 ?s2 = Some 1"
    unfolding heap_after_init_def fresh_heap_def by code_simp
  then show ?thesis unfolding absorb_heap_def by (rule reach_free [OF r2])
qed

lemma start_inj:
  assumes p: "pre_rel s b E L fl {}"
  shows "inj_on (\<lambda>blk. wd (fst blk)) (set L)"
proof (rule inj_onI)
  fix x y assume x: "x \<in> set L" and y: "y \<in> set L" and eq: "wd (fst x) = wd (fst y)"
  obtain c1 z1 f1 where x1: "x = (c1, z1, f1)" by (cases x) auto
  obtain c2 z2 f2 where y1: "y = (c2, z2, f2)" by (cases y) auto
  have "c1 + z1 < 2 ^ 64" "c2 + z2 < 2 ^ 64" using rel_blk [OF p] x y x1 y1 by blast+
  then have "c1 = c2" using eq x1 y1 by (simp add: w_inj)
  then show "x = y" using chain_start_unique [OF pre_relD(2) [OF p], of c1 z1 f1 z2 f2] x y x1 y1 by simp
qed

lemma alloc_set_rel:
  assumes p: "pre_rel s b E L fl {}"
  shows "set (allocated_blocks s) = (\<lambda>blk. wd (fst blk)) ` allocd L"
proof -
  have al: "\<And>c z f. (c, z, f) \<in> set L \<Longrightarrow> (alloc_at (wd c) s = Some 1) = f"
    using rel_reads(2) [OF p] by (simp add: alloc_at_def)
  show ?thesis unfolding allocated_blocks_def heap_blocks_rel [OF p]
  proof (intro set_eqI iffI)
    fix x assume "x \<in> set (filter (\<lambda>bp. alloc_at bp s = Some 1) (map (\<lambda>blk. wd (fst blk)) L))"
    then obtain c z f where m: "(c, z, f) \<in> set L" "x = wd c" "alloc_at (wd c) s = Some 1" by auto
    then have "f" using al by blast
    then have "(c, z, f) \<in> allocd L" using m by (simp add: allocd_def)
    then show "x \<in> (\<lambda>blk. wd (fst blk)) ` allocd L" using m(2) by force
  next
    fix x assume "x \<in> (\<lambda>blk. wd (fst blk)) ` allocd L"
    then obtain c z where m: "(c, z, True) \<in> set L" "x = wd c" by (auto simp: allocd_def)
    then have "alloc_at (wd c) s = Some 1" using al by blast
    then show "x \<in> set (filter (\<lambda>bp. alloc_at bp s = Some 1) (map (\<lambda>blk. wd (fst blk)) L))"
      using m by force
  qed
qed

lemma allocated_block:
  assumes p: "pre_rel s b E L fl {}" and bp: "bp \<in> set (allocated_blocks s)"
  shows "\<exists>c z. bp = wd c \<and> (c, z, True) \<in> set L \<and> size_at bp s = Some (wd z)"
proof -
  obtain c z where "(c, z, True) \<in> set L" "bp = wd c"
    using bp unfolding alloc_set_rel [OF p] by (auto simp: allocd_def)
  then show ?thesis using rel_reads(1) [OF p, of c z True] by (auto simp: size_at_def)
qed

lemma mm_realloc_trunc_zero:
  assumes "sz \<noteq> 0" "2 ^ 32 dvd unat sz"
  shows "mm_realloc bp sz s = map_option (Pair NULL) (mm_free bp s)"
proof -
  have "(ucast sz :: cint) = 0"
    using assms(2) word_of_nat_eq_0_iff [of "unat sz", where ?'a = 32] by simp
  then show ?thesis
    by (cases "mm_free bp s") (simp_all add: mm_realloc_def)
qed

section \<open>Headers and footers\<close>

text \<open>
  C3, as stated, fails right after \<^verbatim>\<open>mm_init\<close>. The prologue has the header \<open>PACK DSIZE 1\<close>,
  but the word of its footer is the sentinel of the free list and holds the address of the
  first free block, written there by \<^verbatim>\<open>insert_in_free_list\<close>. The epilogue is a header
  alone: the word where its footer would be is the footer of the last block.
\<close>

theorem sentinels_disagree_after_init:
  "GET heap_after_init (heap_listp heap_after_init + WSIZE) = Some (PACK DSIZE 1) \<and>
   GET heap_after_init (heap_listp heap_after_init + 2 * WSIZE) = Some 0x10040 \<and>
   \<not> hdr_ftr_agree heap_after_init (heap_listp heap_after_init + 2 * WSIZE) \<and>
   \<not> hdr_ftr_agree heap_after_init (mem_brk heap_after_init)"
  unfolding heap_after_init_def fresh_heap_def by code_simp

text \<open>
  C3, amended: take a region that starts at a non-null multiple of 16 and whose seventh
  word has a zero size field (\<open>provider_fresh\<close>). In every state reached from it by a
  successful \<^verbatim>\<open>mm_init\<close>, allocations of at most \<open>2^32 - 32\<close> bytes, \<^verbatim>\<open>mm_free\<close> of allocated
  blocks, reallocations of allocated blocks that are served in place, and stores into the
  payload of allocated blocks, every block between the prologue and the epilogue has a
  header and a footer that agree on the size and on the allocation bit.
\<close>

theorem blocks_hdr_ftr_agree:
  "reachable s \<Longrightarrow> list_all (hdr_ftr_agree s) (heap_blocks s)"
proof -
  assume "reachable s"
  then obtain b E L fl where h: "heap_rel s b E L fl {}" using reachable_rel by blast
  then have p: "pre_rel s b E L fl {}" by (simp add: heap_rel_def)
  have "\<forall>blk \<in> set L. hdr_ftr_agree s (wd (fst blk))"
    using hdr_ftr_rel [OF p] by auto
  then show ?thesis unfolding heap_blocks_rel [OF p] by (simp add: list_all_iff)
qed

theorem blocks_hdr_ftr_agree_witness:
  "list_all (hdr_ftr_agree sample_heap) (heap_blocks sample_heap) \<and>
   heap_blocks sample_heap = [0x10040, 0x10060, 0x10080]"
proof -
  have "heap_blocks sample_heap = [0x10040, 0x10060, 0x10080]"
    unfolding sample_heap_def two_block_heap_def one_block_heap_def heap_after_init_def fresh_heap_def
    by code_simp
  then show ?thesis using blocks_hdr_ftr_agree [OF reachable_sample] by simp
qed

section \<open>The free list\<close>

text \<open>
  C7, as stated, fails: the list does not end with a null pointer. After \<^verbatim>\<open>mm_init\<close> its
  only node, the block at \<open>0x10040\<close>, has the next pointer \<open>0x10010\<close>, the address of the
  prologue footer, which \<^verbatim>\<open>mm_init\<close> made the initial \<^verbatim>\<open>free_list_start\<close>.
\<close>

theorem free_list_not_null_terminated:
  "free_list_nodes heap_after_init = [0x10040] \<and>
   GET_NEXT_PTR heap_after_init 0x10040 = Some 0x10010 \<and> (0x10010 :: addr) \<noteq> NULL"
  unfolding heap_after_init_def fresh_heap_def by code_simp

text \<open>
  C7, amended: take a region that starts at a non-null multiple of 16 and whose seventh
  word has a zero size field (\<open>provider_fresh\<close>). In every state reached from it by a
  successful \<^verbatim>\<open>mm_init\<close>, allocations of at most \<open>2^32 - 32\<close> bytes, \<^verbatim>\<open>mm_free\<close> of allocated
  blocks, reallocations of allocated blocks that are served in place, and stores into the
  payload of allocated blocks, the nodes met from \<^verbatim>\<open>free_list_start\<close> along the next pointers
  are exactly the free blocks of the heap, each once; \<^verbatim>\<open>free_list_start\<close> is the first node,
  or the address of the prologue footer when there is none; the previous pointer of the
  first node is null and that of every other node is its predecessor; and the next pointer
  of the last node is the address of the prologue footer, whose header word is marked
  allocated, which is what ends the walk.
\<close>

theorem free_list_exact:
  "reachable s \<Longrightarrow>
   set (free_list_nodes s) = set (filter (\<lambda>bp. alloc_at bp s = Some 0) (heap_blocks s)) \<and>
   distinct (free_list_nodes s) \<and> links_ok s NULL (free_list_nodes s) \<and>
   free_list_start s = hd (free_list_nodes s @ [heap_listp s + 2 * WSIZE]) \<and>
   alloc_at (heap_listp s + 2 * WSIZE) s = Some 1"
proof -
  assume "reachable s"
  then obtain b E L fl where h: "heap_rel s b E L fl {}" using reachable_rel by blast
  then have p: "pre_rel s b E L fl {}" by (simp add: heap_rel_def)
  have r: "region s b E" and bE: "b + 64 \<le> E" and El: "E < 2 ^ 64" and S: "mem s (wd (b + 8)) = 17"
    and b16: "16 dvd b" and fs: "free_list_start s = wd (hd (fl @ [b + 16]))"
    using pre_relD [OF p] by auto
  have "b + 16 - 8 = b + 8" by simp
  then have "mem s (wd (b + 16 - 8)) = tagw 16 True" using S by (simp only: tagw_simps)
  moreover have "b + 16 + 16 < 2 ^ 64" "16 dvd b + 16" using bE b16 El by auto
  ultimately have "GET_ALLOC s (HDRP (wd (b + 16))) = Some (if True then 1 else 0)"
    using bE by (intro block_reads(2) [OF r, of "b + 16" 16 True]) auto
  moreover have hl: "heap_listp s + 2 * WSIZE = wd (b + 16)"
    using r by (auto simp: region_def WSIZE_def wd_def)
  ultimately have "alloc_at (heap_listp s + 2 * WSIZE) s = Some 1" by (simp add: alloc_at_def)
  moreover have "free_list_start s = hd (map wd fl @ [heap_listp s + 2 * WSIZE])"
    unfolding hl fs by (cases fl) auto
  ultimately show ?thesis
    using free_list_rel [OF h] free_set_rel [OF h] by simp
qed

theorem free_list_exact_witness:
  "free_list_nodes sample_heap = [0x10040, 0x10080] \<and>
   filter (\<lambda>bp. alloc_at bp sample_heap = Some 0) (heap_blocks sample_heap) = [0x10040, 0x10080] \<and>
   links_ok sample_heap NULL [0x10040, 0x10080] \<and>
   free_list_start sample_heap = 0x10040 \<and>
   alloc_at (heap_listp sample_heap + 2 * WSIZE) sample_heap = Some 1"
proof -
  have "free_list_nodes sample_heap = [0x10040, 0x10080] \<and>
   filter (\<lambda>bp. alloc_at bp sample_heap = Some 0) (heap_blocks sample_heap) = [0x10040, 0x10080]"
    unfolding sample_heap_def two_block_heap_def one_block_heap_def heap_after_init_def fresh_heap_def
    by code_simp
  then show ?thesis using free_list_exact [OF reachable_sample] by simp
qed

section \<open>Reallocation with a size that is zero as an int\<close>

text \<open>
  C10: the dispatch of \<^verbatim>\<open>mm_realloc\<close> tests the size after its conversion to \<^verbatim>\<open>int\<close>. For
  an allocated block \<open>bp\<close> of a reachable state and a non-zero size whose low 32 bits are
  zero, \<^verbatim>\<open>mm_realloc\<close> returns the null pointer and the state that \<^verbatim>\<open>mm_free\<close> produces: the
  allocated blocks are the former ones without \<open>bp\<close>, and the bytes of the block lie in a
  block that is on the free list.
\<close>

theorem mm_realloc_multiple_of_2_32:
  assumes "reachable s" and "bp \<in> set (allocated_blocks s)" and "size_at bp s = Some z"
    and "sz \<noteq> 0" and "2 ^ 32 dvd unat sz"
  shows "\<exists>s'. mm_realloc bp sz s = Some (NULL, s') \<and> mm_free bp s = Some s' \<and> reachable s' \<and>
           bp \<noteq> NULL \<and> set (allocated_blocks s') = set (allocated_blocks s) - {bp} \<and>
           (\<exists>f zf. f \<in> set (free_list_nodes s') \<and> size_at f s' = Some zf \<and>
                    unat f \<le> unat bp \<and> unat bp + unat z \<le> unat f + unat zf)"
proof -
  obtain b E L fl where h: "heap_rel s b E L fl {}" using reachable_rel [OF assms(1)] by blast
  then have p: "pre_rel s b E L fl {}" by (simp add: heap_rel_def)
  obtain c z0 where m: "bp = wd c" "(c, z0, True) \<in> set L" "size_at bp s = Some (wd z0)"
    using allocated_block [OF p assms(2)] by blast
  have z: "z = wd z0" using m(3) assms(3) by simp
  have cb: "b + 64 \<le> c" "c + z0 < 2 ^ 64" using rel_blk [OF p m(2)] by auto
  obtain s' L' fl' c' z' where fr: "mm_free (wd c) s = Some s'" and h': "heap_rel s' b E L' fl' {}"
    and al: "allocd L' = allocd L - {(c, z0, True)}"
    and cv: "(c', z', False) \<in> set L'" "c' \<le> c" "c + z0 \<le> c' + z'"
    using mm_free_cover [OF h m(2)] by blast
  have p': "pre_rel s' b E L' fl' {}" and sf': "set fl' = free_starts L'"
    using h' by (auto simp: heap_rel_def)
  have re: "mm_realloc bp sz s = Some (NULL, s')"
    using mm_realloc_trunc_zero [OF assms(4,5), of bp s] fr m(1) by simp
  have bh: "bp \<in> set (heap_blocks s)" "alloc_at bp s = Some 1"
    using assms(2) by (auto simp: allocated_blocks_def)
  have rs: "reachable s'" using reachable.free [OF assms(1) bh] fr m(1) by simp
  have nz: "bp \<noteq> NULL" using cb by (simp add: m(1) NULL_def w_zero)
  have "allocd L - {(c, z0, True)} \<subseteq> set L" "{(c, z0, True)} \<subseteq> set L"
    using m(2) by (auto simp: allocd_def)
  then have "(\<lambda>blk. wd (fst blk)) ` (allocd L - {(c, z0, True)}) =
      (\<lambda>blk. wd (fst blk)) ` allocd L - (\<lambda>blk. wd (fst blk)) ` {(c, z0, True)}"
    by (intro inj_on_image_set_diff [OF start_inj [OF p]]) (auto simp: allocd_def)
  then have as: "set (allocated_blocks s') = set (allocated_blocks s) - {bp}"
    unfolding alloc_set_rel [OF p] alloc_set_rel [OF p'] al by (simp add: m(1))
  have cb': "c' + z' < 2 ^ 64" using rel_blk [OF p' cv(1)] by auto
  have "c' \<in> set fl'" using sf' cv(1) by (auto simp: free_starts_def)
  then have f1: "wd c' \<in> set (free_list_nodes s')" using free_list_rel(1) [OF h'] by simp
  have f2: "size_at (wd c') s' = Some (wd z')"
    using rel_reads(1) [OF p' cv(1)] by (simp add: size_at_def)
  have "unat (wd c') = c'" "unat (wd z') = z'" "unat bp = c" "unat z = z0"
    using cb cb' by (simp_all add: m(1) z w_unat)
  then have "unat (wd c') \<le> unat bp \<and> unat bp + unat z \<le> unat (wd c') + unat (wd z')"
    using cv by simp
  then show ?thesis using re fr m(1) rs nz as f1 f2 by blast
qed

theorem mm_realloc_multiple_of_2_32_witness:
  "Option.bind (mm_realloc 0x10040 0x100000000 one_block_heap)
     (\<lambda>(p, s'). Some (p, allocated_blocks s', free_list_nodes s')) = Some (NULL, [], [0x10040]) \<and>
   allocated_blocks one_block_heap = [0x10040] \<and> size_at 0x10040 one_block_heap = Some 32"
proof -
  have a: "allocated_blocks one_block_heap = [0x10040] \<and> size_at 0x10040 one_block_heap = Some 32"
    unfolding one_block_heap_def heap_after_init_def fresh_heap_def by code_simp
  have "(0x100000000 :: 64 word) \<noteq> 0" "2 ^ 32 dvd unat (0x100000000 :: 64 word)" by simp_all
  then obtain s' where s': "mm_realloc 0x10040 0x100000000 one_block_heap = Some (NULL, s')"
    "mm_free 0x10040 one_block_heap = Some s'"
    using mm_realloc_multiple_of_2_32 [OF reachable_one_block, of "0x10040" 32 "0x100000000"] a
    by auto
  have "map_option (\<lambda>s'. (allocated_blocks s', free_list_nodes s')) (mm_free 0x10040 one_block_heap) =
      Some ([], [0x10040])"
    unfolding one_block_heap_def heap_after_init_def fresh_heap_def by code_simp
  then show ?thesis using s' a by simp
qed

section \<open>Reallocation that absorbs the next block\<close>

text \<open>
  C5, as stated, fails for a size that is negative as an \<^verbatim>\<open>int\<close>. In a heap of 8 GiB with the
  allocated block \<open>0x10040\<close> of 32 bytes followed by a free block of \<open>0x80000050\<close> bytes, the
  request to reallocate to \<open>2^31\<close> bytes meets every condition of the claim, and
  \<^verbatim>\<open>mm_realloc\<close> returns the null pointer: its first test is \<^verbatim>\<open>(int)size < 0\<close>.
\<close>

theorem mm_realloc_negative_int_size:
  "Option.bind big_run (size_at 0x10040) = Some 32 \<and>
   Option.bind big_run (alloc_at 0x10040) = Some 1 \<and>
   Option.bind big_run (\<lambda>s. NEXT_BLK s 0x10040) = Some 0x10060 \<and>
   Option.bind big_run (alloc_at 0x10060) = Some 0 \<and>
   Option.bind big_run (size_at 0x10060) = Some 0x80000050 \<and>
   (32 :: 64 word) < 0x80000000 + 2 * WSIZE \<and> 0x80000000 + 2 * WSIZE \<le> (32 :: 64 word) + 0x80000050 \<and>
   map_option fst (Option.bind big_run (mm_realloc 0x10040 0x80000000)) = Some NULL"
  unfolding big_run_def big_heap_def fresh_heap_def by code_simp

text \<open>
  C5, amended: in a reachable state, for an allocated block \<open>bp\<close> of size \<open>oldsize\<close> and a
  size that is positive as an \<^verbatim>\<open>int\<close>, with \<open>newsize = size + 2 * WSIZE\<close> greater than
  \<open>oldsize\<close>: if the next block is free and \<open>oldsize\<close> plus its size is at least \<open>newsize\<close>,
  then \<^verbatim>\<open>mm_realloc\<close> returns \<open>bp\<close>; the next block has left the free list, header and footer
  of \<open>bp\<close> hold the sum of the two sizes with the allocated bit, the words of the old
  payload are unchanged, and the state is reachable again.
\<close>

theorem mm_realloc_absorbs_next:
  assumes "reachable s" and "bp \<in> set (allocated_blocks s)" and "size_at bp s = Some oldsize"
    and "0 < sint (ucast sz :: cint)" and "oldsize < sz + 2 * WSIZE"
    and "NEXT_BLK s bp = Some nb" and "alloc_at nb s = Some 0" and "size_at nb s = Some nsz"
    and "sz + 2 * WSIZE \<le> oldsize + nsz"
  shows "\<exists>s'. mm_realloc bp sz s = Some (bp, s') \<and> reachable s' \<and>
           nb \<in> set (free_list_nodes s) \<and>
           set (free_list_nodes s') = set (free_list_nodes s) - {nb} \<and>
           GET s' (HDRP bp) = Some (PACK (oldsize + nsz) 1) \<and>
           Option.bind (FTRP s' bp) (GET s') = Some (PACK (oldsize + nsz) 1) \<and>
           FTRP s' bp = Some (bp + (oldsize + nsz) - DSIZE) \<and>
           (\<forall>a. bp \<le> a \<and> unat a + 3 * unat WSIZE \<le> unat bp + unat oldsize \<longrightarrow> mem s' a = mem s a)"
proof -
  obtain b E L fl where h: "heap_rel s b E L fl {}" using reachable_rel [OF assms(1)] by blast
  then have p: "pre_rel s b E L fl {}" and e: "mem s (wd (E - 8)) = 1" and sf: "set fl = free_starts L"
    by (auto simp: heap_rel_def)
  have ch: "chain (b + 64) L E" and El: "E < 2 ^ 64" and ok: "fl_ok b E fl" and r: "region s b E"
    using pre_relD [OF p] by auto
  obtain c z where m: "bp = wd c" "(c, z, True) \<in> set L" "size_at bp s = Some (wd z)"
    using allocated_block [OF p assms(2)] by blast
  have z: "oldsize = wd z" using m(3) assms(3) by simp
  have cb: "32 \<le> z" "b + 64 \<le> c" "c + z \<le> E" "16 dvd z" "16 dvd c" using rel_blk [OF p m(2)] by auto
  have nb: "nb = wd (c + z)" using rel_reads(4) [OF p m(2)] assms(6) by (simp add: m(1))
  obtain xs ys where L: "L = xs @ (c, z, True) # ys" and cy: "chain (c + z) ys E"
    using chain_split [OF ch m(2)] by blast
  have "GET_ALLOC s (HDRP (wd (c + z))) = Some (if ys = [] \<or> snd (snd (hd ys)) then 1 else 0)"
    using coalesce_next_read [OF p e L] .
  then have "\<not> (ys = [] \<or> snd (snd (hd ys)))"
    using assms(7) by (auto simp: alloc_at_def nb split: if_splits)
  then obtain zn ys' where ys: "ys = (c + z, zn, False) # ys'"
    using cy by (cases ys) auto
  have mn: "(c + z, zn, False) \<in> set L" by (simp add: L ys)
  have cn: "32 \<le> zn" "c + z + zn \<le> E" "16 dvd zn" using rel_blk [OF p mn] by auto
  have "size_at nb s = Some (wd zn)" using rel_reads(1) [OF p mn] by (simp add: size_at_def nb)
  then have zn: "nsz = wd zn" using assms(8) by simp
  have sum: "oldsize + nsz = wd (z + zn)" by (simp add: z zn w_add)
  have big: "\<not> sz + 2 * WSIZE \<le> wd z" using assms(5) by (simp add: z not_le)
  have fits: "sz + 2 * WSIZE \<le> wd (z + zn)" using assms(9) sum by simp
  obtain s' L' fl' where re: "mm_realloc (wd c) sz s = Some (wd c, s')"
    and h': "heap_rel s' b E L' fl' {}" and m': "(c, z + zn, True) \<in> set L'"
    and fs: "set fl' = set fl - {c + z}"
    and fr: "\<forall>a. a < 2 ^ 64 \<and> a \<notin> links_of fl \<and> a \<noteq> b + 16 \<and> a \<noteq> c - 8 \<and> a \<noteq> c + (z + zn) - 16 \<longrightarrow>
              mem s' (wd a) = mem s (wd a)"
    using realloc_absorb_rel [OF h m(2) mn assms(4) big fits] by blast
  have p': "pre_rel s' b E L' fl' {}" using h' by (simp add: heap_rel_def)
  have bh: "bp \<in> set (heap_blocks s)" "alloc_at bp s = Some 1"
    using assms(2) by (auto simp: allocated_blocks_def)
  have ip: "served_in_place bp sz s"
    using assms(3,6,7,8,9) by (simp add: served_in_place_def)
  have rs: "reachable s'" using reachable.realloc [OF assms(1) bh ip] re m(1) by simp
  have nfl: "nb \<in> set (free_list_nodes s)"
    using sf mn free_list_rel(1) [OF h] by (auto simp: nb free_starts_def)
  have lt: "\<forall>x \<in> set fl. x < 2 ^ 64" using ok El by (auto simp: fl_ok_def)
  have "set fl - {c + z} \<subseteq> set fl" "{c + z} \<subseteq> set fl" using sf mn by (auto simp: free_starts_def)
  then have "wd ` (set fl - {c + z}) = wd ` set fl - wd ` {c + z}"
    by (intro inj_on_image_set_diff [OF wd_inj_on [OF lt]])
  then have fl': "set (free_list_nodes s') = set (free_list_nodes s) - {nb}"
    unfolding free_list_rel(1) [OF h] free_list_rel(1) [OF h'] by (simp add: fs nb)
  have r': "region s' b E" using pre_relD [OF p'] by auto
  have t: "mem s' (wd (c - 8)) = tagw (z + zn) True" "mem s' (wd (c + (z + zn) - 16)) = tagw (z + zn) True"
    using p' m' by (auto simp: pre_rel_def tagged_def)
  have v: "valid_addr s' (wd (c - 8))" "valid_addr s' (wd (c + (z + zn) - 16))"
    using cb cn by (auto intro!: valid_nat [OF r'] elim!: dvdE)
  have hp: "HDRP (wd c) = wd (c - 8)" using cb by (simp add: HDRP_nat)
  have pk: "PACK (oldsize + nsz) 1 = tagw (z + zn) True" by (simp add: sum tagw_simps)
  have g1: "GET s' (HDRP bp) = Some (PACK (oldsize + nsz) 1)"
    using v(1) t(1) by (simp add: m(1) hp GET_valid pk)
  have ft: "FTRP s' (wd c) = Some (wd (c + (z + zn) - 16))" using rel_reads(3) [OF p' m'] by simp
  have g2: "Option.bind (FTRP s' bp) (GET s') = Some (PACK (oldsize + nsz) 1)"
    using v(2) t(2) by (simp add: m(1) ft GET_valid pk)
  have "wd c + wd (z + zn) - 16 = wd (c + (z + zn) - 16)" using cb by (simp add: w_add w_sub_num)
  then have g3: "FTRP s' bp = Some (bp + (oldsize + nsz) - DSIZE)"
    by (simp add: m(1) ft sum DSIZE_def WSIZE_def)
  have pl: "\<forall>a. bp \<le> a \<and> unat a + 3 * unat WSIZE \<le> unat bp + unat oldsize \<longrightarrow> mem s' a = mem s a"
  proof (intro allI impI)
    fix a assume a: "bp \<le> a \<and> unat a + 3 * unat WSIZE \<le> unat bp + unat oldsize"
    have u: "unat bp = c" "unat oldsize = z" using cb El by (simp_all add: m(1) z w_unat)
    have a1: "c \<le> unat a" "unat a + 24 \<le> c + z"
      using a u by (simp_all add: word_le_nat_alt WSIZE_def)
    have nl: "unat a \<notin> links_of fl"
    proof
      assume "unat a \<in> links_of fl"
      then obtain x where x: "x \<in> set fl" "unat a = x \<or> unat a = x + 8" by (auto simp: links_of_def)
      then obtain zx where mx: "(x, zx, False) \<in> set L" using sf by (auto simp: free_starts_def)
      have "32 \<le> zx" using rel_blk [OF p mx] by auto
      moreover have "c + z \<le> x \<or> x + zx \<le> c" using chain_disjoint [OF ch m(2) mx] by auto
      ultimately show False using x(2) a1 by auto
    qed
    have "unat a < 2 ^ 64 \<and> unat a \<noteq> b + 16 \<and> unat a \<noteq> c - 8 \<and> unat a \<noteq> c + (z + zn) - 16"
      using a1 cb cn El by auto
    then have "mem s' (wd (unat a)) = mem s (wd (unat a))" using fr nl by blast
    then show "mem s' a = mem s a" by simp
  qed
  show ?thesis using re m(1) rs nfl fl' g1 g2 g3 pl by auto
qed

theorem mm_realloc_absorbs_next_witness:
  "map_option fst (mm_realloc 0x10040 48 absorb_heap) = Some 0x10040 \<and>
   allocated_blocks absorb_heap = [0x10040] \<and> size_at 0x10040 absorb_heap = Some 48 \<and>
   NEXT_BLK absorb_heap 0x10040 = Some 0x10070 \<and> alloc_at 0x10070 absorb_heap = Some 0 \<and>
   size_at 0x10070 absorb_heap = Some 4080 \<and>
   Option.bind (mm_realloc 0x10040 48 absorb_heap) (\<lambda>(p, s'). GET s' (HDRP 0x10040)) = Some (PACK 4128 1)"
proof -
  have a: "allocated_blocks absorb_heap = [0x10040] \<and> size_at 0x10040 absorb_heap = Some 48 \<and>
   NEXT_BLK absorb_heap 0x10040 = Some 0x10070 \<and> alloc_at 0x10070 absorb_heap = Some 0 \<and>
   size_at 0x10070 absorb_heap = Some 4080"
    unfolding absorb_heap_def heap_after_init_def fresh_heap_def by code_simp
  have "0 < sint (ucast (48 :: 64 word) :: cint)" "(48 :: 64 word) < 48 + 2 * WSIZE"
    "(48 :: 64 word) + 2 * WSIZE \<le> 48 + 4080"
    by (simp_all add: WSIZE_def)
  then obtain s' where "mm_realloc 0x10040 48 absorb_heap = Some (0x10040, s')"
    "GET s' (HDRP 0x10040) = Some (PACK (48 + 4080) 1)"
    using mm_realloc_absorbs_next [OF reachable_absorb, of "0x10040" 48 48 "0x10070" 4080] a
    by auto
  then show ?thesis using a by simp
qed

lemma ext_bytes_dvd:
  fixes words :: "64 word"
  shows "16 dvd unat (if words mod 2 \<noteq> 0 then (words + 1) * WSIZE else words * WSIZE)"
proof -
  define w' where "w' = (if words mod 2 \<noteq> 0 then words + 1 else words)"
  have "even w'"
  proof (cases "words mod 2 = 0")
    case True
    then show ?thesis by (simp add: w'_def even_iff_mod_2_eq_zero)
  next
    case False
    then have "odd words" by (simp add: even_iff_mod_2_eq_zero)
    then show ?thesis using False by (simp add: w'_def)
  qed
  then obtain k where k: "w' = 2 * k" by (rule evenE)
  have "(if words mod 2 \<noteq> 0 then (words + 1) * WSIZE else words * WSIZE) = w' * 8"
    by (simp add: w'_def WSIZE_def)
  also have "\<dots> = 16 * k" by (simp add: k)
  finally have eq: "(if words mod 2 \<noteq> 0 then (words + 1) * WSIZE else words * WSIZE) = 16 * k" .
  have "unat (16 * k) = 16 * unat k mod 2 ^ 64"
    using unat_word_ariths(2) [of 16 k] by simp
  moreover have "(16 :: nat) dvd 16 * unat k mod 2 ^ 64" by (intro dvd_mod) simp_all
  ultimately show ?thesis unfolding eq by simp
qed

lemma extend_heap_bytes:
  assumes eq: "(if words mod 2 \<noteq> 0 then (words + 1) * WSIZE else words * WSIZE) = wd z"
    and z: "16 dvd z" "32 \<le> z" "z < 2 ^ 63"
  shows "extend_heap words s = extend_heap (wd (z div 8)) s"
proof -
  have w: "4 \<le> z div 8" "z div 8 < 2 ^ 60 - 1" "even (z div 8)" using z by (auto elim!: dvdE)
  have sz: "8 * (if odd (z div 8) then z div 8 + 1 else z div 8) = z" using w(3) z(1) by (auto elim!: dvdE)
  have "(wd z < wd 16) = (z < 16)" using z by (intro w_less) auto
  then have n16: "(wd z < 16) = False" using z by (simp add: wd_def)
  have pk: "PACK 0 1 = 1" by (simp add: PACK_def)
  have "extend_heap words s =
     (case mem_sbrk (wd z) s of (bp, s1) \<Rightarrow>
        if (ucast bp :: cint) = - 1 then Some (NULL, s1)
        else do {
           s2 \<leftarrow> PUT (HDRP bp) (tagw z False) s1;
           f \<leftarrow> FTRP s2 bp;
           s3 \<leftarrow> PUT f (tagw z False) s2;
           nb \<leftarrow> NEXT_BLK s3 bp;
           s4 \<leftarrow> PUT (HDRP nb) 1 s3;
           coalesce bp s4
         })"
    unfolding extend_heap_def eq by (simp add: n16 Let_def tagw_simps pk split: prod.splits)
  then show ?thesis using extend_heap_unfold [OF w(1,2), of s] unfolding sz by simp
qed

lemma extend_heap_negative:
  assumes eq: "(if words mod 2 \<noteq> 0 then (words + 1) * WSIZE else words * WSIZE) = sz"
    and z: "2 ^ 63 \<le> unat sz"
  shows "extend_heap words s = Some (NULL, s)"
proof -
  define d where "d = 2 ^ 64 - unat sz"
  have ul: "unat sz < 2 ^ 64" using unsigned_less [of sz, where ?'a = nat] by simp
  have d: "0 < d" "d \<le> 2 ^ 63" "2 ^ 64 - d = unat sz" using z ul by (simp_all add: d_def)
  have "sint (wd (2 ^ 64 - d)) < 0" by (rule sint_top [OF d(1,2)])
  then have neg: "sint sz < 0" unfolding d(3) by simp
  have "\<not> unat sz < 16" using z by simp
  then have n16: "(sz < 16) = False" by (simp add: word_less_nat_alt)
  have um: "(ucast (- 1 :: 64 word) :: cint) = - 1"
    by (rule bit_word_eqI) (simp add: bit_ucast_iff)
  show ?thesis
    unfolding extend_heap_def eq by (simp add: n16 Let_def mem_sbrk_def neg um)
qed

lemma extend_heap_gen:
  assumes p: "pre_rel s b E L fl {}" and sf: "set fl = free_starts L"
    and eq: "(if words mod 2 \<noteq> 0 then (words + 1) * WSIZE else words * WSIZE) = sz"
    and big: "4 * WSIZE \<le> sz"
    and ex: "extend_heap words s = Some (bp, s')" and nn: "bp \<noteq> NULL"
  shows "\<exists>L' fl'. heap_rel s' b (E + unat sz) L' fl' {} \<and> mem s' (wd (E - 8)) = tagw (unat sz) False \<and>
           E + unat sz < 2 ^ 64"
proof -
  define z where "z = unat sz"
  have szw: "sz = wd z" by (simp add: z_def)
  have z16: "16 dvd z" unfolding z_def using ext_bytes_dvd [of words] eq by simp
  have z32: "32 \<le> z" using big by (simp add: z_def word_le_nat_alt WSIZE_def)
  have zl: "z < 2 ^ 63"
  proof (rule ccontr)
    assume "\<not> z < 2 ^ 63"
    then have "extend_heap words s = Some (NULL, s)"
      using extend_heap_negative [OF eq] by (simp add: z_def)
    then show False using ex nn by simp
  qed
  have w: "4 \<le> z div 8" "z div 8 < 2 ^ 60 - 1" "even (z div 8)" using z16 z32 zl by (auto elim!: dvdE)
  have sz: "8 * (if odd (z div 8) then z div 8 + 1 else z div 8) = z" using w(3) z16 by (auto elim!: dvdE)
  have e2: "extend_heap (wd (z div 8)) s = Some (bp, s')"
    using extend_heap_bytes [OF eq [unfolded szw] z16 z32 zl] ex by simp
  have fit: "E + z \<le> unat (mem_max_addr s)"
  proof (rule ccontr)
    assume "\<not> E + z \<le> unat (mem_max_addr s)"
    then have "extend_heap (wd (z div 8)) s = Some (NULL, s)"
      using extend_heap_rel(2) [OF p sf w(1,2)] unfolding sz by blast
    then show False using e2 nn by simp
  qed
  have "unat (mem_max_addr s) < 2 ^ 64" using unsigned_less [of "mem_max_addr s", where ?'a = nat] by simp
  then have "E + z < 2 ^ 64" using fit by simp
  moreover obtain s'' L' fl' c zc where "extend_heap (wd (z div 8)) s = Some (wd c, s'')"
     "heap_rel s'' b (E + z) L' fl' {}" "mem s'' (wd (E - 8)) = tagw z False"
    using extend_heap_rel(1) [OF p sf w(1,2)] fit unfolding sz by blast
  ultimately show ?thesis using e2 by (auto simp: z_def)
qed

section \<open>Extending the heap\<close>

lemma mm_init_calls_extend_heap:
  "mm_init fresh_heap =
     Option.bind (extend_heap 4 init_pre) (\<lambda>(r, s6). if r = NULL then Some (- 1, s6) else Some (0, s6))"
  by (simp add: mm_init_def init_pre_def mem_sbrk_def fresh_heap_def PUT_def valid_addr_def
      WSIZE_def NULL_def Let_def)

text \<open>
  C6, as stated, fails for the first extension, the one in \<^verbatim>\<open>mm_init\<close>. There \<^verbatim>\<open>mm_init\<close> has
  obtained eight words and written the epilogue header into the fourth
  (\<^verbatim>\<open>heap_listp + 3 * WSIZE\<close>); \<^verbatim>\<open>extend_heap(4)\<close> writes the header of the new block into the
  eighth, the last word of the region, and the word of the epilogue header keeps its value.
\<close>

theorem extend_heap_in_init_misses_epilogue:
  "mem_brk init_pre = heap_listp init_pre + 8 * WSIZE \<and>
   GET init_pre (heap_listp init_pre + 3 * WSIZE) = Some (PACK 0 1) \<and>
   map_option (\<lambda>(bp, s). (HDRP bp, GET s (HDRP bp), GET s (heap_listp init_pre + 3 * WSIZE)))
     (extend_heap 4 init_pre)
     = Some (heap_listp init_pre + 7 * WSIZE, Some (PACK (4 * WSIZE) 0), Some (PACK 0 1))"
  unfolding init_pre_def fresh_heap_def by code_simp

text \<open>
  C6, amended: in a reachable state, whatever the values of the two counters of
  \<^verbatim>\<open>find_fit\<close>, a successful call of \<^verbatim>\<open>extend_heap\<close> whose rounded size is at least four words
  finds the epilogue header in the last word of the region, writes the header of the new
  free block over it, moves the end of the region up by the rounded size and writes a new
  epilogue header into the last word of the extended region, right after the new block.
\<close>

theorem extend_heap_over_epilogue:
  assumes "reachable s"
    and "sz = (if words mod 2 \<noteq> 0 then (words + 1) * WSIZE else words * WSIZE)"
    and "4 * WSIZE \<le> sz"
    and "extend_heap words (s\<lparr>last_malloced_size := l, repeat_counter := r\<rparr>) = Some (bp, s')"
    and "bp \<noteq> NULL"
  shows "GET s (mem_brk s - WSIZE) = Some (PACK 0 1) \<and>
         GET s' (mem_brk s - WSIZE) = Some (PACK sz 0) \<and>
         mem_brk s' = mem_brk s + sz \<and>
         GET s' (mem_brk s' - WSIZE) = Some (PACK 0 1)"
proof -
  obtain b E L fl where h: "heap_rel s b E L fl {}" using reachable_rel [OF assms(1)] by blast
  then have p: "pre_rel s b E L fl {}" and e: "mem s (wd (E - 8)) = 1"
    by (auto simp: heap_rel_def)
  let ?s = "s\<lparr>last_malloced_size := l, repeat_counter := r\<rparr>"
  have h0: "heap_rel ?s b E L fl {}" using h by simp
  then have p0: "pre_rel ?s b E L fl {}" and sf0: "set fl = free_starts L"
    by (auto simp: heap_rel_def)
  have r: "region s b E" and bE: "b + 64 \<le> E" and El: "E < 2 ^ 64" and b16: "16 dvd b"
    and ch: "chain (b + 64) L E"
    using pre_relD [OF p] by auto
  have E16: "16 dvd E" using chain_aligned [OF ch] b16 by simp
  obtain L' fl' where h': "heap_rel s' b (E + unat sz) L' fl' {}"
    and t: "mem s' (wd (E - 8)) = tagw (unat sz) False" and El': "E + unat sz < 2 ^ 64"
    using extend_heap_gen [OF p0 sf0 assms(2) [symmetric] assms(3,4,5)] by blast
  have p': "pre_rel s' b (E + unat sz) L' fl' {}" and e': "mem s' (wd (E + unat sz - 8)) = 1"
    using h' by (auto simp: heap_rel_def)
  have r': "region s' b (E + unat sz)" using pre_relD [OF p'] by auto
  have "unat (mem_brk s) = E" "unat (mem_brk s') = E + unat sz" using r r' by (auto simp: region_def)
  then have "wd (unat (mem_brk s)) = wd E" "wd (unat (mem_brk s')) = wd (E + unat sz)" by simp_all
  then have mb: "mem_brk s = wd E" "mem_brk s' = wd (E + unat sz)" by (simp_all only: wd_unat)
  have sub: "wd E - WSIZE = wd (E - 8)" "wd (E + unat sz) - WSIZE = wd (E + unat sz - 8)"
    using bE by (simp_all add: WSIZE_def w_sub_num)
  have z16: "16 dvd unat sz" unfolding assms(2) by (rule ext_bytes_dvd)
  obtain k j where kj: "E = 16 * k" "unat sz = 16 * j" using E16 z16 by (auto elim!: dvdE)
  have d8: "8 dvd E - 8" "8 dvd E + unat sz - 8" using bE by (simp_all add: kj)
  have v: "valid_addr s (wd (E - 8))" "valid_addr s' (wd (E - 8))" "valid_addr s' (wd (E + unat sz - 8))"
    using bE d8 by (auto intro!: valid_nat [OF r] valid_nat [OF r'])
  have pk: "PACK 0 1 = 1" "PACK sz 0 = tagw (unat sz) False" by (simp_all add: PACK_def tagw_def)
  have "wd E + sz = wd (E + unat sz)" using w_add [of E "unat sz"] by simp
  then show ?thesis
    using v e t e' by (simp add: mb sub GET_valid pk)
qed

theorem extend_heap_over_epilogue_witness:
  "GET heap_after_init (mem_brk heap_after_init - WSIZE) = Some (PACK 0 1) \<and>
   mem_brk heap_after_init = 0x10060 \<and>
   map_option (\<lambda>(bp, s'). (GET s' 0x10058, mem_brk s', GET s' (mem_brk s' - WSIZE)))
     (extend_heap 512 (heap_after_init\<lparr>last_malloced_size := 0, repeat_counter := 1\<rparr>))
     = Some (Some (PACK 4096 0), 0x11060, Some (PACK 0 1))"
proof -
  let ?r = "extend_heap 512 (heap_after_init\<lparr>last_malloced_size := 0, repeat_counter := 1\<rparr>)"
  have a: "map_option fst ?r = Some 0x10040 \<and> mem_brk heap_after_init = 0x10060"
    unfolding heap_after_init_def fresh_heap_def by code_simp
  then obtain s' where s': "?r = Some (0x10040, s')" by (cases ?r) auto
  have "(4096 :: 64 word) = (if (512 :: 64 word) mod 2 \<noteq> 0 then (512 + 1) * WSIZE else 512 * WSIZE)"
    "4 * WSIZE \<le> (4096 :: 64 word)" "(0x10040 :: addr) \<noteq> NULL"
    by (simp_all add: WSIZE_def NULL_def)
  then show ?thesis
    using extend_heap_over_epilogue [OF reachable_after_init _ _ s'] a s' by (auto simp: WSIZE_def)
qed

end
